theory Spec2Isabelle
  imports Main "HOL-Library.Word" "HOL-Library.AList"
begin

section \<open>The Markov chain text generator \<open>mark.go\<close>\<close>

text \<open>
  The program builds a table of prefix/suffix frequencies from text (\<open>Build\<close>), writes it
  to a model file (\<open>WriteModel\<close>), reads such a file back (\<open>ReadChainFromFile\<close>) and
  generates text from a loaded table (\<open>Generate\<close>).

  Go's \<open>string\<close> is a sequence of bytes: \<open>string\<close> here, one \<open>char\<close> per byte. Memory
  is not bounded: a slice or a string can have any length. Go's
  \<open>int\<close> is the 64-bit two's complement integer of the usual platforms: \<open>64 word\<close>,
  read with \<open>sint\<close>, so that \<open>+\<close> and \<open>-\<close> wrap as they do in Go. A Go
  \<open>map[string]V\<close> is an association list with at most one entry per key, looked up with
  \<open>map_of\<close>; the order of its entries is the order of insertion and means nothing to
  the program, except where the program ranges over a map (in \<open>Generate\<close>), and there
  the order is taken from an oracle. A panic of the Go runtime or of the program is the
  left summand of the result.
\<close>

subsection \<open>Go runtime and library functions used by the program\<close>

type_synonym int64 = "64 word"

datatype panic =
    MakesliceLenOutOfRange
  | SliceBoundsOutOfRange
  | IndexOutOfRange
  | IntnInvalidArgument
  | ExplicitPanic string

text \<open>\<open>m[k]\<close> on a Go map: the stored value, or the zero value of the type for a missing key.\<close>

definition go_lookup :: "'v \<Rightarrow> (string \<times> 'v) list \<Rightarrow> string \<Rightarrow> 'v" where
  "go_lookup zero m k = (case map_of m k of None \<Rightarrow> zero | Some v \<Rightarrow> v)"

text \<open>\<open>xs[i]\<close> on a Go slice: a run-time panic outside \<open>0 \<le> i < len(xs)\<close>.\<close>

definition index :: "'a list \<Rightarrow> nat \<Rightarrow> panic + 'a" where
  "index xs i = (if i < length xs then Inr (xs ! i) else Inl IndexOutOfRange)"

text \<open>\<open>strings.Join(elems, sep)\<close>.\<close>

fun Join :: "string list \<Rightarrow> string \<Rightarrow> string" where
  "Join [] sep = []"
| "Join [x] sep = x"
| "Join (x # y # ys) sep = x @ sep @ Join (y # ys) sep"

text \<open>\<open>strings.Split(s, " ")\<close>: the pieces between the single spaces of \<open>s\<close>, one more
  than there are spaces.\<close>

fun Split :: "string \<Rightarrow> string list" where
  "Split [] = [[]]"
| "Split (x # xs) =
     (if x = CHR '' '' then [] # Split xs
      else (case Split xs of [] \<Rightarrow> [[x]] | w # ws \<Rightarrow> (x # w) # ws))"

text \<open>
  White space as \<open>fmt.Fscan\<close> and \<open>strings.Fields\<close> see it. Both take Unicode's white
  space; on bytes below 0x80 that is tab, line feed, vertical tab, form feed, carriage
  return and space. A byte from 0x80 on is part of a multi-byte character; the model
  takes none of them for white space, which agrees with Go on every text in UTF-8 whose
  characters beyond ASCII are not white space.
\<close>

definition isSpace :: "char \<Rightarrow> bool" where
  "isSpace c = (c \<in> {CHR 0x09, CHR 0x0A, CHR 0x0B, CHR 0x0C, CHR 0x0D, CHR 0x20})"

text \<open>\<open>strings.Fields(s)\<close>: the maximal runs of characters that are not white space.
  \<open>fields_from cur s\<close> is the scan of \<open>s\<close> with the field \<open>cur\<close> begun.\<close>

fun fields_from :: "string \<Rightarrow> string \<Rightarrow> string list" where
  "fields_from cur [] = (if cur = [] then [] else [cur])"
| "fields_from cur (c # cs) =
     (if isSpace c then (if cur = [] then fields_from [] cs else cur # fields_from [] cs)
      else fields_from (cur @ [c]) cs)"

definition Fields :: "string \<Rightarrow> string list" where
  "Fields s = fields_from [] s"

text \<open>The tokens that successive calls \<open>fmt.Fscan(br, &s)\<close> read from a reader holding
  \<open>input\<close>, up to the call that fails at the end of the input: the operand is a string,
  so each call skips white space (line ends included) and takes the run of characters up
  to the next white space.\<close>

definition Fscan_tokens :: "string \<Rightarrow> string list" where
  "Fscan_tokens input = Fields input"

text \<open>\<open>strconv.Itoa\<close>: decimal digits, with a minus sign for a negative number.\<close>

definition digit_char :: "int \<Rightarrow> char" where
  "digit_char d = ''0123456789'' ! nat d"

function digits :: "int \<Rightarrow> string" where
  "digits n = (if n < 10 then [digit_char n] else digits (n div 10) @ [digit_char (n mod 10)])"
  by pat_completeness auto
termination
  by (relation "measure nat") auto

declare digits.simps [simp del]

definition Itoa :: "int64 \<Rightarrow> string" where
  "Itoa i = (if sint i < 0 then CHR ''-'' # digits (- sint i) else digits (sint i))"

text \<open>
  \<open>strconv.Atoi\<close>: an optional sign and at least one decimal digit, nothing else. The
  result is the value and no error; or 0 and a syntax error; or, for a number outside
  the 64-bit range, the nearest bound and a range error.
\<close>

datatype NumError = ErrSyntax | ErrRange

definition digit_val :: "char \<Rightarrow> int option" where
  "digit_val ch = map_of [(CHR ''0'', 0), (CHR ''1'', 1), (CHR ''2'', 2), (CHR ''3'', 3),
     (CHR ''4'', 4), (CHR ''5'', 5), (CHR ''6'', 6), (CHR ''7'', 7), (CHR ''8'', 8),
     (CHR ''9'', 9)] ch"

fun digits_value :: "int \<Rightarrow> string \<Rightarrow> int option" where
  "digits_value acc [] = Some acc"
| "digits_value acc (ch # s) =
     (case digit_val ch of None \<Rightarrow> None | Some d \<Rightarrow> digits_value (acc * 10 + d) s)"

definition Atoi :: "string \<Rightarrow> int64 \<times> NumError option" where
  "Atoi s =
     (let neg = (s \<noteq> [] \<and> hd s = CHR ''-'');
          ds = (if s \<noteq> [] \<and> (hd s = CHR ''-'' \<or> hd s = CHR ''+'') then tl s else s)
      in if ds = [] then (0, Some ErrSyntax)
         else (case digits_value 0 ds of
                 None \<Rightarrow> (0, Some ErrSyntax)
               | Some un \<Rightarrow>
                   if \<not> neg \<and> un \<ge> 2 ^ 63 then (word_of_int (2 ^ 63 - 1), Some ErrRange)
                   else if neg \<and> un > 2 ^ 63 then (word_of_int (- (2 ^ 63)), Some ErrRange)
                   else (word_of_int (if neg then - un else un), None)))"

text \<open>\<open>strconv.Quote("")\<close>: two double quote characters.\<close>

definition Quote_empty :: string where
  "Quote_empty = [CHR 0x22, CHR 0x22]"

text \<open>
  \<open>bufio.Scanner\<close> with its default split function \<open>ScanLines\<close> and its default buffer.
  \<open>raw_lines\<close> cuts the data at each line feed; data after the last line feed is a line
  if it is not empty. A line of \<open>MaxScanTokenSize\<close> (64 * 1024) bytes or more does not fit
  the buffer: \<open>Scan\<close> returns false there and at every later call. A line that is
  returned has one trailing carriage return dropped.
\<close>

fun raw_lines :: "string \<Rightarrow> string \<Rightarrow> string list" where
  "raw_lines cur [] = (if cur = [] then [] else [cur])"
| "raw_lines cur (c # cs) =
     (if c = CHR 0x0A then cur # raw_lines [] cs else raw_lines (cur @ [c]) cs)"

definition MaxScanTokenSize :: nat where
  "MaxScanTokenSize = 65536"

definition dropCR :: "string \<Rightarrow> string" where
  "dropCR l = (if l \<noteq> [] \<and> last l = CHR 0x0D then butlast l else l)"

definition Scanner_lines :: "string \<Rightarrow> string list" where
  "Scanner_lines data =
     map dropCR (takeWhile (\<lambda>l. length l < MaxScanTokenSize) (raw_lines [] data))"

text \<open>What \<open>fmt.Fprintln(f, x)\<close> calls have written to a file: each line and a line feed.\<close>

definition file_bytes :: "string list \<Rightarrow> string" where
  "file_bytes ls = concat (map (\<lambda>l. l @ [CHR 0x0A]) ls)"

text \<open>
  \<open>rand.Intn(n)\<close> panics unless \<open>0 < n\<close>, and returns a number from 0 up to \<open>n - 1\<close>.
  The world outside the program is a record of two oracles: \<open>draw w t\<close> is the raw
  number behind the \<open>t\<close>-th call of \<open>rand.Intn\<close>, and \<open>visit w t m\<close> is the order in
  which the \<open>t\<close>-th \<open>for ... range\<close> over a map visits the entries \<open>m\<close>.
\<close>

record world =
  draw :: "nat \<Rightarrow> nat"
  visit :: "nat \<Rightarrow> (string \<times> int64) list \<Rightarrow> (string \<times> int64) list"

definition Intn :: "world \<Rightarrow> nat \<Rightarrow> int \<Rightarrow> panic + nat" where
  "Intn w t n = (if n \<le> 0 then Inl IntnInvalidArgument else Inr (draw w t mod nat n))"

subsection \<open>Prefix and Chain\<close>

type_synonym Prefix = "string list"

text \<open>\<open>make(Prefix, n)\<close>: \<open>n\<close> empty strings; a panic for a negative \<open>n\<close>.\<close>

definition make_Prefix :: "int64 \<Rightarrow> panic + Prefix" where
  "make_Prefix n =
     (if sint n < 0 then Inl MakesliceLenOutOfRange else Inr (replicate (nat (sint n)) []))"

definition String :: "Prefix \<Rightarrow> string" where
  "String p = Join p '' ''"

text \<open>\<open>p.Shift(word)\<close>: \<open>copy(p, p[1:])\<close> panics on an empty \<open>p\<close>, whose \<open>p[1:]\<close> is out
  of bounds; otherwise the words move one place down and \<open>word\<close> is the last.\<close>

definition Shift :: "Prefix \<Rightarrow> string \<Rightarrow> panic + Prefix" where
  "Shift p word = (if p = [] then Inl SliceBoundsOutOfRange else Inr (tl p @ [word]))"

text \<open>The struct \<open>Chain\<close>. Its field \<open>text\<close> is \<open>text'\<close> here, \<open>text\<close> being a keyword of
  Isabelle; for the same reason the variables \<open>fields\<close> and \<open>slice\<close> of the source are
  \<open>flds\<close> and \<open>items\<close> below.\<close>

record Chain =
  chain :: "(string \<times> string list) list"
  prefixLen :: int64
  text' :: "string list list"
  pairmap :: "(string \<times> (string \<times> int64) list) list"
  prefixStorage :: "string list"

definition NewChain :: "int64 \<Rightarrow> Chain" where
  "NewChain n = \<lparr>chain = [], prefixLen = n, text' = [], pairmap = [], prefixStorage = []\<rparr>"

fun Find :: "string list \<Rightarrow> string \<Rightarrow> bool" where
  "Find [] val = False"
| "Find (item # items) val = (if item = val then True else Find items val)"

subsection \<open>Build\<close>

text \<open>The body of the loop of \<open>Build\<close> between the scan and the shift: the pair of the key
  and the token \<open>s\<close> is counted in \<open>pairmap\<close>, and \<open>s\<close> joins the choices of the key in
  \<open>chain\<close> unless it is among them.\<close>

definition record_pair :: "Chain \<Rightarrow> string \<Rightarrow> string \<Rightarrow> Chain" where
  "record_pair c key s =
     (let pm = (if map_of (pairmap c) key = None then AList.update key [] (pairmap c)
                else pairmap c);
          inner = go_lookup [] pm key;
          pm' = AList.update key (AList.update s (go_lookup 0 inner s + 1) inner) pm;
          choices = go_lookup [] (chain c) key;
          ch = (if \<not> Find choices s then AList.update key (choices @ [s]) (chain c)
                else chain c)
      in c\<lparr>chain := ch, pairmap := pm'\<rparr>)"

text \<open>The loop of \<open>Build\<close> over the tokens still to be scanned: the chain, the prefix \<open>p\<close>
  and \<open>currtext\<close> are its state.\<close>

fun Build_loop :: "Chain \<Rightarrow> Prefix \<Rightarrow> string list \<Rightarrow> string list \<Rightarrow> panic + (Chain \<times> string list)" where
  "Build_loop c p currtext [] = Inr (c, currtext)"
| "Build_loop c p currtext (s # rest) =
     (case Shift p s of
        Inl e \<Rightarrow> Inl e
      | Inr p' \<Rightarrow> Build_loop (record_pair c (String p) s) p' (currtext @ [s]) rest)"

definition Build :: "string \<Rightarrow> Chain \<Rightarrow> panic + Chain" where
  "Build input c =
     (case make_Prefix (prefixLen c) of
        Inl e \<Rightarrow> Inl e
      | Inr p \<Rightarrow>
          (case Build_loop c p [] (Fscan_tokens input) of
             Inl e \<Rightarrow> Inl e
           | Inr (c', currtext) \<Rightarrow> Inr (c'\<lparr>text' := text' c' @ [currtext]\<rparr>)))"

text \<open>The loop of \<open>main\<close> over the input files of the \<open>read\<close> command.\<close>

fun Build_all :: "string list \<Rightarrow> Chain \<Rightarrow> panic + Chain" where
  "Build_all [] c = Inr c"
| "Build_all (input # inputs) c =
     (case Build input c of Inl e \<Rightarrow> Inl e | Inr c' \<Rightarrow> Build_all inputs c')"

subsection \<open>WriteModel\<close>

text \<open>The fields of the line that \<open>WriteModel\<close> writes for the prefix \<open>p\<close>: the words of the
  prefix, then the choices.\<close>

definition prefix_fields :: "Prefix \<Rightarrow> string list" where
  "prefix_fields p = map (\<lambda>word. if word = [] then Quote_empty else word) p"

definition suffix_fields :: "Chain \<Rightarrow> Prefix \<Rightarrow> string list \<Rightarrow> string list" where
  "suffix_fields c p choices =
     concat (map (\<lambda>word. if word = [] then [Quote_empty]
                          else [word, Itoa (go_lookup 0 (go_lookup [] (pairmap c) (String p)) word)])
                 choices)"

definition line_fields :: "Chain \<Rightarrow> Prefix \<Rightarrow> string list" where
  "line_fields c p = prefix_fields p @ suffix_fields c p (go_lookup [] (chain c) (String p))"

text \<open>The inner loop of \<open>WriteModel\<close> over the tokens of one text, from index \<open>i\<close> on: the
  chain (of which only \<open>prefixStorage\<close> changes), the prefix and the lines written so
  far are its state.\<close>

fun replay :: "Chain \<Rightarrow> Prefix \<Rightarrow> string list \<Rightarrow> string list \<Rightarrow> panic + (Chain \<times> string list)" where
  "replay c p out [] = Inr (c, out)"
| "replay c p out (next # rest) =
     (if length (go_lookup [] (chain c) (String p)) = 0 then Inr (c, out)
      else if \<not> Find (prefixStorage c) (String p) then
        (case Shift p next of
           Inl e \<Rightarrow> Inl e
         | Inr p' \<Rightarrow>
             replay (c\<lparr>prefixStorage := prefixStorage c @ [String p]\<rparr>) p'
               (out @ [Join (line_fields c p) '' '']) rest)
      else
        (case Shift p next of
           Inl e \<Rightarrow> Inl e
         | Inr p' \<Rightarrow> replay c p' out rest))"

text \<open>The outer loop of \<open>WriteModel\<close> over the texts.\<close>

fun replay_all :: "Chain \<Rightarrow> string list \<Rightarrow> string list list \<Rightarrow> panic + (Chain \<times> string list)" where
  "replay_all c out [] = Inr (c, out)"
| "replay_all c out (t # ts) =
     (case make_Prefix (prefixLen c) of
        Inl e \<Rightarrow> Inl e
      | Inr p \<Rightarrow>
          (case replay c p out t of
             Inl e \<Rightarrow> Inl e
           | Inr (c', out') \<Rightarrow> replay_all c' out' ts))"

text \<open>\<open>WriteModel\<close>: the chain afterwards and the lines printed to the file. Creating the
  file is the operating system's part and is left out.\<close>

definition WriteModel :: "Chain \<Rightarrow> panic + (Chain \<times> string list)" where
  "WriteModel c = replay_all c [Itoa (prefixLen c)] (text' c)"

subsection \<open>ReadChainFromFile\<close>

text \<open>The loop that restores the empty string from its quoted form.\<close>

definition unquote_fields :: "string list \<Rightarrow> string list" where
  "unquote_fields flds = map (\<lambda>str. if str = Quote_empty then [] else str) flds"

text \<open>
  The loop over the suffixes of one line. Its \<open>i\<close>-th round reads the suffix at
  \<open>fields[order + 2 * i]\<close> and the count at \<open>fields[order + 2 * i + 1]\<close>, for \<open>i\<close> below
  half the number of the fields from \<open>order\<close> on: the function takes those fields, two
  at a time, and leaves out a last one without a partner. A count that \<open>Atoi\<close> rejects
  is reported on the standard output (the state's second component holds what was printed
  there: the fields of the line) and the loop goes on with the value \<open>Atoi\<close> returned.
\<close>

fun read_suffixes :: "string \<Rightarrow> string list \<Rightarrow> string list \<Rightarrow> Chain \<times> string list list \<Rightarrow> Chain \<times> string list list" where
  "read_suffixes pre flds (suffix # count # rest) (c, printed) =
     (let (freq, err) = Atoi count;
          printed' = (if err \<noteq> None then printed @ [flds] else printed);
          inner = go_lookup [] (pairmap c) pre;
          c' = c\<lparr>pairmap :=
                 AList.update pre (AList.update suffix (go_lookup 0 inner suffix + freq) inner)
                   (pairmap c)\<rparr>
      in read_suffixes pre flds rest (c', printed'))"
| "read_suffixes pre flds rest (c, printed) = (c, printed)"

text \<open>The body of the loop over the lines after the first. The local \<open>order\<close> of the
  source is the \<open>prefixLen\<close> of the chain, which \<open>NewChain(order)\<close> made. The slice
  \<open>fields[0:order]\<close> panics unless \<open>0 \<le> order \<le> len(fields)\<close> (the slice that
  \<open>strings.Fields\<close> returns has no spare capacity).\<close>

definition read_line :: "string \<Rightarrow> Chain \<times> string list list \<Rightarrow> panic + (Chain \<times> string list list)" where
  "read_line line st =
     (let c = fst st;
          order = prefixLen c;
          flds = unquote_fields (Fields line)
      in if sint order < 0 \<or> int (length flds) < sint order then Inl SliceBoundsOutOfRange
         else
           (let pre = Join (take (nat (sint order)) flds) '' '';
                c1 = c\<lparr>prefixStorage := prefixStorage c @ [pre]\<rparr>;
                c2 = (if map_of (pairmap c1) pre = None
                      then c1\<lparr>pairmap := AList.update pre [] (pairmap c1)\<rparr> else c1)
            in Inr (read_suffixes pre flds (drop (nat (sint order)) flds) (c2, snd st))))"

fun read_lines :: "string list \<Rightarrow> Chain \<times> string list list \<Rightarrow> panic + (Chain \<times> string list list)" where
  "read_lines [] st = Inr st"
| "read_lines (line # ls) st =
     (case read_line line st of Inl e \<Rightarrow> Inl e | Inr st' \<Rightarrow> read_lines ls st')"

text \<open>\<open>ReadChainFromFile\<close> on the bytes of the model file: the chain and what was printed
  on the standard output. Opening the file is left out. The first \<open>Scan\<close> may fail (no
  line, or a line too long); \<open>scanner.Text()\<close> is the empty string then.\<close>

definition ReadChainFromFile :: "string \<Rightarrow> panic + (Chain \<times> string list list)" where
  "ReadChainFromFile data =
     (let ls = Scanner_lines data;
          (order, err) = Atoi (case ls of [] \<Rightarrow> [] | l # _ \<Rightarrow> l)
      in if err \<noteq> None then Inl (ExplicitPanic ''error parsing integer value from line 1'')
         else read_lines (tl ls) (NewChain order, []))"

subsection \<open>Generate\<close>

text \<open>The candidates of one round of \<open>Generate\<close>: each key of \<open>choices\<close>, in the order in
  which the map is visited, as many times as its count says (not at all for a count
  of zero or less).\<close>

definition candidates :: "(string \<times> int64) list \<Rightarrow> string list" where
  "candidates entries = concat (map (\<lambda>(key, n). replicate (nat (sint n)) key) entries)"

text \<open>
  The loop of \<open>Generate\<close>. \<open>bound\<close> is the value of \<open>n - c.prefixLen\<close>, which does not
  change; the counter \<open>i\<close> stays below it and so cannot overflow. \<open>t\<close> counts the calls
  of \<open>rand.Intn\<close> made so far.
\<close>

function Generate_loop :: "world \<Rightarrow> Chain \<Rightarrow> int \<Rightarrow> int \<Rightarrow> nat \<Rightarrow> Prefix \<Rightarrow> string list \<Rightarrow> panic + string list" where
  "Generate_loop w c bound i t p words =
     (if i < bound then
        (let choices = go_lookup [] (pairmap c) (String p) in
         if length choices = 0 then Inr words
         else
           (let keys = candidates (visit w t choices) in
            case Intn w t (int (length keys)) of
              Inl e \<Rightarrow> Inl e
            | Inr r \<Rightarrow>
                (case index keys r of
                   Inl e \<Rightarrow> Inl e
                 | Inr suffix \<Rightarrow>
                     (case Shift p suffix of
                        Inl e \<Rightarrow> Inl e
                      | Inr p' \<Rightarrow> Generate_loop w c bound (i + 1) (t + 1) p' (words @ [suffix])))))
      else Inr words)"
  by pat_completeness auto
termination
  by (relation "measure (\<lambda>(w, c, bound, i, t, p, words). nat (bound - i))") auto

declare Generate_loop.simps [simp del]

definition Generate :: "world \<Rightarrow> Chain \<Rightarrow> int64 \<Rightarrow> panic + string" where
  "Generate w c n =
     (case Intn w 0 (int (length (prefixStorage c))) of
        Inl e \<Rightarrow> Inl e
      | Inr randIndex \<Rightarrow>
          (case make_Prefix (prefixLen c) of
             Inl e \<Rightarrow> Inl e
           | Inr p0 \<Rightarrow>
               (case index (prefixStorage c) randIndex of
                  Inl e \<Rightarrow> Inl e
                | Inr key \<Rightarrow>
                    (let p = Split key in
                     case Generate_loop w c (sint (n - prefixLen c)) 0 1 p [String p] of
                       Inl e \<Rightarrow> Inl e
                     | Inr words \<Rightarrow> Inr (Join words '' '')))))"

subsection \<open>The two commands of \<open>main\<close>\<close>

text \<open>\<open>mark read N outfile infile...\<close>: a new chain of order \<open>N\<close>, \<open>Build\<close> on each input
  file in turn, then \<open>WriteModel\<close>. The result is the chain and the lines of the file.\<close>

definition main_read :: "int64 \<Rightarrow> string list \<Rightarrow> panic + (Chain \<times> string list)" where
  "main_read order inputs =
     (case Build_all inputs (NewChain order) of Inl e \<Rightarrow> Inl e | Inr c \<Rightarrow> WriteModel c)"

text \<open>\<open>mark generate modelfile n\<close>: \<open>ReadChainFromFile\<close>, then \<open>Generate\<close>; \<open>data\<close> is the
  content of the model file. The result is the text that is printed.\<close>

definition main_generate :: "world \<Rightarrow> string \<Rightarrow> int64 \<Rightarrow> panic + string" where
  "main_generate w data n =
     (case ReadChainFromFile data of Inl e \<Rightarrow> Inl e | Inr (c, printed) \<Rightarrow> Generate w c n)"

subsection \<open>Notions used to state the properties\<close>

text \<open>The frequency table that a \<open>pairmap\<close> stands for: which keys it has, and for each key
  which suffixes with which counts. The order of the entries plays no part in it.\<close>

definition table_of :: "(string \<times> (string \<times> int64) list) list \<Rightarrow> string \<Rightarrow> (string \<Rightarrow> int64 option) option" where
  "table_of pm key = map_option map_of (map_of pm key)"

text \<open>The prefixes met while the tokens \<open>toks\<close> slide through the window \<open>p\<close>, each with
  the token that follows it.\<close>

fun windows :: "Prefix \<Rightarrow> string list \<Rightarrow> (Prefix \<times> string) list" where
  "windows p [] = []"
| "windows p (s # rest) = (p, s) # windows (tl p @ [s]) rest"

text \<open>All of them for the texts of a chain, text after text, each text starting from the
  window of empty strings.\<close>

definition encounters :: "Chain \<Rightarrow> (Prefix \<times> string) list" where
  "encounters c = concat (map (windows (replicate (nat (sint (prefixLen c))) [])) (text' c))"

text \<open>How many times the prefix with the key \<open>key\<close> is followed by the token \<open>s\<close> in the
  texts of a chain.\<close>

definition times_followed :: "Chain \<Rightarrow> string \<Rightarrow> string \<Rightarrow> nat" where
  "times_followed c key s = count_list (map (\<lambda>(q, s). (String q, s)) (encounters c)) (key, s)"

text \<open>The tables of a chain hold the pairs \<open>tr\<close> of a key and a suffix, and nothing else:
  \<open>pairmap\<close> has the keys of \<open>tr\<close> and for each the suffixes that come with it in \<open>tr\<close>,
  counted; \<open>chain\<close> lists the same suffixes for the key, each once.\<close>

definition recorded :: "Chain \<Rightarrow> (string \<times> string) list \<Rightarrow> bool" where
  "recorded c tr \<longleftrightarrow>
     (\<forall>key. (map_of (pairmap c) key = None) = (key \<notin> fst ` set tr)) \<and>
     (\<forall>key. (map_of (chain c) key = None) = (key \<notin> fst ` set tr)) \<and>
     (\<forall>key. set (go_lookup [] (chain c) key) = {s. (key, s) \<in> set tr}) \<and>
     (\<forall>key. distinct (go_lookup [] (chain c) key)) \<and>
     (\<forall>key. fst ` set (go_lookup [] (pairmap c) key) = {s. (key, s) \<in> set tr}) \<and>
     (\<forall>key s. go_lookup 0 (go_lookup [] (pairmap c) key) s = of_nat (count_list tr (key, s)))"

text \<open>The prefixes among \<open>qs\<close> whose key is neither in \<open>seen\<close> nor the key of an earlier one
  of \<open>qs\<close>.\<close>

fun first_new :: "string list \<Rightarrow> Prefix list \<Rightarrow> Prefix list" where
  "first_new seen [] = []"
| "first_new seen (q # qs) =
     (if String q \<in> set seen then first_new seen qs
      else q # first_new (seen @ [String q]) qs)"

text \<open>What the line of a prefix with the key \<open>key\<close> says about the table of \<open>c\<close>: the
  suffixes listed in \<open>chain\<close> for the key, each with its count in \<open>pairmap\<close>.\<close>

definition line_table :: "Chain \<Rightarrow> string \<Rightarrow> string \<Rightarrow> int64 option" where
  "line_table c key s =
     (if s \<in> set (go_lookup [] (chain c) key)
      then Some (go_lookup 0 (go_lookup [] (pairmap c) key) s) else None)"

text \<open>The line of the prefix \<open>q\<close> can be read back: \<open>q\<close> has as many words as the order
  says, each empty or free of white space, and its choices are distinct words that are
  not empty and free of white space; none of the words is the quoted empty string.\<close>

definition readable :: "Chain \<Rightarrow> int64 \<Rightarrow> Prefix \<Rightarrow> bool" where
  "readable c k q \<longleftrightarrow>
     length q = nat (sint k) \<and> Quote_empty \<notin> set q \<and>
     (\<forall>t\<in>set q. \<forall>ch\<in>set t. \<not> isSpace ch) \<and>
     (\<forall>t\<in>set (go_lookup [] (chain c) (String q)). t \<noteq> [] \<and> (\<forall>ch\<in>set t. \<not> isSpace ch)) \<and>
     Quote_empty \<notin> set (go_lookup [] (chain c) (String q)) \<and>
     distinct (go_lookup [] (chain c) (String q))"

text \<open>A world for examples: every draw is 0 and a map is visited in the order of its
  entries.\<close>

definition plain_world :: world where
  "plain_world = \<lparr>draw = (\<lambda>t. 0), visit = (\<lambda>t m. m)\<rparr>"

section \<open>Properties\<close>

lemma Find_iff: "Find items val \<longleftrightarrow> val \<in> set items"
  by (induction items) auto

subsection \<open>Unfolding the definitions on concrete inputs\<close>

lemmas lib_eval = Let_def Atoi_def digit_val_def Fields_def isSpace_def Scanner_lines_def
  MaxScanTokenSize_def dropCR_def Itoa_def digits.simps digit_char_def Quote_empty_def
  go_lookup_def index_def file_bytes_def Intn_def make_Prefix_def String_def Shift_def
  NewChain_def

lemmas prog_eval = record_pair_def Build_def Fscan_tokens_def prefix_fields_def
  suffix_fields_def line_fields_def WriteModel_def unquote_fields_def read_line_def
  ReadChainFromFile_def candidates_def Generate_def Generate_loop.simps main_read_def
  main_generate_def plain_world_def

subsection \<open>Generate\<close>

lemma Split_not_Nil: "Split s \<noteq> []"
  by (induction s) (auto split: list.splits)

lemma Join_Split: "Join (Split s) '' '' = s"
proof (induction s)
  case Nil
  show ?case by simp
next
  case (Cons x xs)
  obtain w ws where sp: "Split xs = w # ws"
    using Split_not_Nil [of xs] by (cases "Split xs") auto
  show ?case
  proof (cases "x = CHR '' ''")
    case True
    with Cons sp show ?thesis by simp
  next
    case False
    with Cons sp show ?thesis by (cases ws) auto
  qed
qed

lemma Generate_loop_done: "bound \<le> i \<Longrightarrow> Generate_loop w c bound i t p words = Inr words"
  by (simp add: Generate_loop.simps)

lemma Generate_loop_panics:
  "p \<noteq> [] \<Longrightarrow> Generate_loop w c bound i t p words = Inl e \<Longrightarrow> e = IntnInvalidArgument"
proof (induction w c bound i t p words rule: Generate_loop.induct)
  case (1 w c bound i t p words)
  let ?choices = "go_lookup [] (pairmap c) (String p)"
  let ?keys = "candidates (visit w t ?choices)"
  from "1.prems"(2) have run: "i < bound" "length ?choices \<noteq> 0"
    by (auto simp: Generate_loop.simps [of w c bound i t p words] Let_def split: if_splits)
  show ?case
  proof (cases "Intn w t (int (length ?keys))")
    case (Inl e')
    with "1.prems"(2) run have "e = e'"
      by (simp add: Generate_loop.simps [of w c bound i t p words] Let_def)
    with Inl show ?thesis by (auto simp: Intn_def split: if_splits)
  next
    case (Inr r)
    then have r: "r < length ?keys" by (auto simp: Intn_def split: if_splits)
    then have ix: "index ?keys r = Inr (?keys ! r)" by (simp add: index_def)
    from "1.prems"(1) have sh: "Shift p (?keys ! r) = Inr (tl p @ [?keys ! r])"
      by (simp add: Shift_def)
    from "1.prems"(2) run Inr ix sh
    have "Generate_loop w c bound (i + 1) (t + 1) (tl p @ [?keys ! r]) (words @ [?keys ! r]) = Inl e"
      by (simp add: Generate_loop.simps [of w c bound i t p words] Let_def)
    moreover have "tl p @ [?keys ! r] \<noteq> []" by simp
    ultimately show ?thesis
      using "1.IH" [OF run(1) refl run(2) refl Inr ix sh] by blast
  qed
qed

lemma Generate_panics:
  assumes "Generate w c n = Inl e"
  shows "e = IntnInvalidArgument \<or> e = MakesliceLenOutOfRange"
proof (cases "Intn w 0 (int (length (prefixStorage c)))")
  case (Inl e')
  with assms have "e = e'" by (simp add: Generate_def)
  with Inl show ?thesis by (auto simp: Intn_def split: if_splits)
next
  case (Inr r)
  then have r: "r < length (prefixStorage c)" by (auto simp: Intn_def split: if_splits)
  show ?thesis
  proof (cases "sint (prefixLen c) < 0")
    case True
    with assms Inr show ?thesis by (simp add: Generate_def make_Prefix_def)
  next
    case False
    with assms Inr r
    have "\<exists>ws. Generate_loop w c (sint (n - prefixLen c)) 0 1 (Split (prefixStorage c ! r))
             ws = Inl e"
      by (auto simp: Generate_def make_Prefix_def index_def Let_def split: sum.splits)
    then show ?thesis using Generate_loop_panics [OF Split_not_Nil] by blast
  qed
qed

text \<open>Where \<open>n - c.prefixLen\<close> is not positive (as a 64-bit integer), the loop does not run
  and the result is the chosen entry of \<open>prefixStorage\<close>.\<close>

lemma Generate_start_only:
  assumes "prefixStorage c \<noteq> []" and "0 \<le> sint (prefixLen c)"
    and "sint (n - prefixLen c) \<le> 0"
  shows "Generate w c n = Inr (prefixStorage c ! (draw w 0 mod length (prefixStorage c)))"
  using assms
  by (simp add: Generate_def Intn_def make_Prefix_def index_def Generate_loop_done
      String_def Join_Split)


subsection \<open>ReadChainFromFile\<close>

lemma read_suffixes_frame:
  "read_suffixes pre flds rest st = st' \<Longrightarrow>
     prefixLen (fst st') = prefixLen (fst st) \<and> prefixStorage (fst st') = prefixStorage (fst st)
     \<and> chain (fst st') = chain (fst st) \<and> text' (fst st') = text' (fst st)"
  by (induction pre flds rest st arbitrary: st' rule: read_suffixes.induct)
     (auto simp: Let_def split: prod.splits)

lemma read_line_frame:
  assumes "read_line l st = Inr st'"
  shows "prefixLen (fst st') = prefixLen (fst st)"
    and "prefixStorage (fst st') = prefixStorage (fst st) @
           [Join (take (nat (sint (prefixLen (fst st)))) (unquote_fields (Fields l))) '' '']"
  using assms read_suffixes_frame
  by (auto simp: read_line_def Let_def split: if_splits)

lemma read_lines_frame:
  "read_lines ls st = Inr st' \<Longrightarrow>
     prefixLen (fst st') = prefixLen (fst st) \<and>
     prefixStorage (fst st') = prefixStorage (fst st) @
       map (\<lambda>l. Join (take (nat (sint (prefixLen (fst st)))) (unquote_fields (Fields l))) '' '') ls"
proof (induction ls arbitrary: st)
  case Nil
  then show ?case by simp
next
  case (Cons l ls)
  then obtain st1 where l: "read_line l st = Inr st1" and ls: "read_lines ls st1 = Inr st'"
    by (auto split: sum.splits)
  from Cons.IH [OF ls] read_line_frame [OF l] show ?case by simp
qed

text \<open>
  Claim C10. \<open>ReadChainFromFile\<close> appends the prefix key of each line after the first to
  \<open>prefixStorage\<close>, once per line and whether or not the key is there already: whenever
  it returns a chain, the \<open>prefixStorage\<close> of the chain lists the keys of the lines in
  the order of the lines. The instance below is a file whose two lines have the key
  \<open>a\<close>: the key stands twice in \<open>prefixStorage\<close>, and the counts 1 and 2 of the suffix \<open>b\<close>
  are added up in the one entry of the key in \<open>pairmap\<close>.
\<close>

theorem ReadChainFromFile_appends_every_line:
  assumes "ReadChainFromFile data = Inr (c, printed)"
  shows "prefixStorage c =
           map (\<lambda>l. Join (take (nat (sint (prefixLen c))) (unquote_fields (Fields l))) '' '')
             (tl (Scanner_lines data))"
proof -
  obtain order err where a: "Atoi (case Scanner_lines data of [] \<Rightarrow> [] | l # _ \<Rightarrow> l) = (order, err)"
    by (cases "Atoi (case Scanner_lines data of [] \<Rightarrow> [] | l # _ \<Rightarrow> l)") auto
  with assms have "read_lines (tl (Scanner_lines data)) (NewChain order, []) = Inr (c, printed)"
    by (auto simp: ReadChainFromFile_def Let_def split: if_splits)
  from read_lines_frame [OF this] show ?thesis by (simp add: NewChain_def)
qed

theorem ReadChainFromFile_appends_every_line_witness:
  "ReadChainFromFile ''1\<newline>a b 1\<newline>a b 2\<newline>'' =
     Inr (\<lparr>chain = [], prefixLen = 1, text' = [], pairmap = [(''a'', [(''b'', 3)])],
            prefixStorage = [''a'', ''a'']\<rparr>, [])
   \<and> [''a'', ''a''] =
       map (\<lambda>l. Join (take (nat (sint (1 :: int64))) (unquote_fields (Fields l))) '' '')
         (tl (Scanner_lines ''1\<newline>a b 1\<newline>a b 2\<newline>''))"
proof -
  have e: "ReadChainFromFile ''1\<newline>a b 1\<newline>a b 2\<newline>'' =
     Inr (\<lparr>chain = [], prefixLen = 1, text' = [], pairmap = [(''a'', [(''b'', 3)])],
            prefixStorage = [''a'', ''a'']\<rparr>, [])"
    by (simp add: lib_eval prog_eval)
  from ReadChainFromFile_appends_every_line [OF e] e show ?thesis by simp
qed

text \<open>
  Claim C4 says that a count that is not an integer makes the reader give up and return
  no model. The code prints the fields of the line and goes on: on the file below, whose
  first count is \<open>x\<close>, it returns a chain in which the suffix \<open>b\<close> has the count 0, and the
  rest of that line and the next line are read as if nothing had happened. The first
  line of a file is treated otherwise: a first line that is not an integer ends in a
  panic.
\<close>

theorem ReadChainFromFile_goes_on_after_bad_count:
  "ReadChainFromFile ''1\<newline>a b x c 2\<newline>d e 1\<newline>'' =
     Inr (\<lparr>chain = [], prefixLen = 1, text' = [],
            pairmap = [(''a'', [(''b'', 0), (''c'', 2)]), (''d'', [(''e'', 1)])],
            prefixStorage = [''a'', ''d'']\<rparr>,
          [[''a'', ''b'', ''x'', ''c'', ''2'']])"
  by (simp add: lib_eval prog_eval)

subsection \<open>Generate on small models\<close>

text \<open>
  Claim C5, as amended. \<open>Generate\<close> on a chain with an empty \<open>prefixStorage\<close> ends in the
  panic of \<open>rand.Intn\<close>, called with the length 0, before any slice is indexed. It
  returns nothing, so no error value either; the panic is not the one of an index out of
  range.
\<close>

theorem Generate_empty_storage_panics:
  "prefixStorage c = [] \<Longrightarrow>
     Generate w c n = Inl IntnInvalidArgument \<and> Generate w c n \<noteq> Inl IndexOutOfRange"
  by (simp add: Generate_def Intn_def)

theorem Generate_empty_storage_panics_witness:
  "prefixStorage (NewChain 2) = [] \<and>
   Generate plain_world (NewChain 2) 10 = Inl IntnInvalidArgument \<and>
   Generate plain_world (NewChain 2) 10 \<noteq> Inl IndexOutOfRange"
  using Generate_empty_storage_panics [of "NewChain 2" plain_world 10]
  by (simp add: NewChain_def)

text \<open>
  Claim C5 as stated fails: on the model read from a file that holds the order and no
  line, \<open>Generate\<close> does not return a value that reports the error, it panics.
\<close>

theorem Generate_empty_model_no_error_value:
  "main_generate plain_world ''1\<newline>'' 5 = Inl IntnInvalidArgument"
  by (simp add: lib_eval prog_eval)

text \<open>
  Claim C6 says that \<open>Generate n\<close> returns at most \<open>n\<close> tokens, and so does the comment on
  \<open>Generate\<close> in the source. With a model of order 2 and \<open>n = 1\<close> the code returns the
  two tokens of the starting prefix.
\<close>

theorem Generate_more_than_n_words:
  "main_generate w ''2\<newline>a b c 1\<newline>'' 1 = Inr ''a b'' \<and> Split ''a b'' = [''a'', ''b'']"
  by (simp add: lib_eval prog_eval)

text \<open>
  Claim C7 says that \<open>Generate n\<close> returns the tokens of the starting prefix and nothing
  else whenever \<open>n\<close> is at most the order. For the least 64-bit integer \<open>n\<close> the
  difference \<open>n - c.prefixLen\<close> wraps around to a large positive number and the loop runs:
  with a model of order 1 the code returns two tokens.
\<close>

theorem Generate_least_n_runs_on:
  "main_generate plain_world ''1\<newline>a b 1\<newline>'' (- 9223372036854775808) = Inr ''a b''
   \<and> Split ''a b'' = [''a'', ''b'']"
  by (simp add: lib_eval prog_eval)

subsection \<open>Fields and Join\<close>

lemma fields_from_run:
  "\<forall>c\<in>set t. \<not> isSpace c \<Longrightarrow> fields_from cur (t @ rest) = fields_from (cur @ t) rest"
  by (induction t arbitrary: cur) auto

lemma Fields_Join:
  "\<forall>t\<in>set ts. t \<noteq> [] \<and> (\<forall>c\<in>set t. \<not> isSpace c) \<Longrightarrow> Fields (Join ts '' '') = ts"
proof (induction ts "'' ''" rule: Join.induct)
  case 1
  show ?case by (simp add: Fields_def)
next
  case (2 x)
  then have "fields_from [] (x @ []) = fields_from ([] @ x) []"
    by (intro fields_from_run) simp
  with 2 show ?case by (simp add: Fields_def)
next
  case (3 x y ys)
  then have x: "x \<noteq> []" "\<forall>c\<in>set x. \<not> isSpace c" by auto
  have "fields_from [] (x @ '' '' @ Join (y # ys) '' '') = fields_from ([] @ x) ('' '' @ Join (y # ys) '' '')"
    using x(2) by (rule fields_from_run)
  also have "\<dots> = x # fields_from [] (Join (y # ys) '' '')"
    using x(1) by (simp add: isSpace_def)
  finally show ?case using 3 by (simp add: Fields_def)
qed

lemma fields_from_tokens:
  "\<forall>c\<in>set cur. \<not> isSpace c \<Longrightarrow>
     \<forall>t\<in>set (fields_from cur s). t \<noteq> [] \<and> (\<forall>c\<in>set t. \<not> isSpace c)"
proof (induction s arbitrary: cur)
  case Nil
  then show ?case by simp
next
  case (Cons a s)
  have e: "\<forall>t\<in>set (fields_from [] s). t \<noteq> [] \<and> (\<forall>c\<in>set t. \<not> isSpace c)"
    using Cons.IH [of "[]"] by simp
  show ?case
  proof (cases "isSpace a")
    case True
    with e Cons.prems show ?thesis by simp
  next
    case False
    with Cons.prems have "\<forall>c\<in>set (cur @ [a]). \<not> isSpace c" by simp
    from Cons.IH [OF this] False show ?thesis by simp
  qed
qed

lemma Fscan_tokens_good:
  "t \<in> set (Fscan_tokens input) \<Longrightarrow> t \<noteq> [] \<and> (\<forall>c\<in>set t. \<not> isSpace c)"
  unfolding Fscan_tokens_def Fields_def using fields_from_tokens [of "[]" input] by simp

subsection \<open>Itoa and Atoi\<close>

lemma digit_char_cases:
  assumes "0 \<le> d" "d < 10"
  shows "digit_val (digit_char d) = Some d \<and> digit_char d \<in> set ''0123456789''"
proof -
  from assms have "d = 0 \<or> d = 1 \<or> d = 2 \<or> d = 3 \<or> d = 4 \<or> d = 5 \<or> d = 6 \<or> d = 7 \<or> d = 8 \<or> d = 9"
    by arith
  then show ?thesis
    by (elim disjE) (simp_all add: digit_val_def digit_char_def)
qed

lemma digits_value_append:
  "digits_value acc (xs @ ys) =
     (case digits_value acc xs of None \<Rightarrow> None | Some a \<Rightarrow> digits_value a ys)"
  by (induction xs arbitrary: acc) (auto split: option.splits)

lemma digits_props:
  "0 \<le> n \<Longrightarrow> digits_value 0 (digits n) = Some n \<and> digits n \<noteq> [] \<and>
     set (digits n) \<subseteq> set ''0123456789''"
proof (induction n rule: digits.induct)
  case (1 n)
  show ?case
  proof (cases "n < 10")
    case True
    with 1(2) digit_char_cases [of n] show ?thesis
      by (simp add: digits.simps [of n])
  next
    case False
    then have "0 \<le> n div 10" by simp
    from 1(1) [OF False this] digit_char_cases [of "n mod 10"] False show ?thesis
      by (simp add: digits.simps [of n] digits_value_append)
  qed
qed

lemma Itoa_chars: "set (Itoa i) \<subseteq> set ''-0123456789''" and Itoa_not_Nil: "Itoa i \<noteq> []"
  using digits_props [of "sint i"] digits_props [of "- sint i"]
  by (auto simp: Itoa_def)

lemma Atoi_Itoa: "Atoi (Itoa (i :: int64)) = (i, None)"
proof (cases "sint i < 0")
  case True
  have up: "- sint i \<le> 2 ^ 63" using sint_ge [of i] by simp
  from True digits_props [of "- sint i"] up show ?thesis
    by (simp add: Atoi_def Itoa_def)
next
  case False
  then have nn: "0 \<le> sint i" by simp
  have up: "sint i < 2 ^ 63" using sint_lt [of i] by simp
  from digits_props [OF nn] have "hd (digits (sint i)) \<in> set ''0123456789''"
    by (cases "digits (sint i)") auto
  then have "hd (digits (sint i)) \<noteq> CHR ''-''" "hd (digits (sint i)) \<noteq> CHR ''+''" by auto
  with False digits_props [OF nn] up show ?thesis
    by (simp add: Atoi_def Itoa_def)
qed

subsection \<open>The scanner on what Fprintln wrote\<close>

lemma raw_lines_run:
  "CHR 0x0A \<notin> set l \<Longrightarrow> raw_lines cur (l @ CHR 0x0A # rest) = (cur @ l) # raw_lines [] rest"
  by (induction l arbitrary: cur) auto

lemma raw_lines_file_bytes:
  "\<forall>l\<in>set ls. CHR 0x0A \<notin> set l \<Longrightarrow> raw_lines [] (file_bytes ls) = ls"
proof (induction ls)
  case Nil
  show ?case by (simp add: file_bytes_def)
next
  case (Cons l ls)
  then have "raw_lines [] (l @ CHR 0x0A # file_bytes ls) = ([] @ l) # raw_lines [] (file_bytes ls)"
    by (intro raw_lines_run) simp
  with Cons show ?case by (simp add: file_bytes_def)
qed

lemma Scanner_lines_file_bytes:
  assumes "\<forall>l\<in>set ls. CHR 0x0A \<notin> set l \<and> CHR 0x0D \<notin> set l \<and> length l < MaxScanTokenSize"
  shows "Scanner_lines (file_bytes ls) = ls"
proof -
  have r: "raw_lines [] (file_bytes ls) = ls" using assms by (intro raw_lines_file_bytes) simp
  have t: "takeWhile (\<lambda>l. length l < MaxScanTokenSize) ls = ls"
    using assms by (intro takeWhile_eq_all_conv [THEN iffD2]) simp
  have m: "map dropCR ls = ls"
  proof (rule map_idI)
    fix l assume "l \<in> set ls"
    with assms have "CHR 0x0D \<notin> set l" by simp
    then show "dropCR l = l" by (cases l rule: rev_cases) (auto simp: dropCR_def)
  qed
  show ?thesis by (simp only: Scanner_lines_def r t m)
qed

subsection \<open>Build\<close>

lemma go_lookup_update:
  "go_lookup z (AList.update k v m) k' = (if k' = k then v else go_lookup z m k')"
  by (simp add: go_lookup_def update_conv')

lemma pairmap_record_pair:
  "map_of (pairmap (record_pair c key s)) =
     (map_of (pairmap c))(key \<mapsto>
        AList.update s (go_lookup 0 (go_lookup [] (pairmap c) key) s + 1)
          (go_lookup [] (pairmap c) key))"
  by (auto simp: record_pair_def Let_def update_conv' go_lookup_def split: option.splits)

lemma chain_record_pair:
  "map_of (chain (record_pair c key s)) =
     (if s \<in> set (go_lookup [] (chain c) key) then map_of (chain c)
      else (map_of (chain c))(key \<mapsto> go_lookup [] (chain c) key @ [s]))"
  by (simp add: record_pair_def Let_def update_conv' Find_iff)

lemma record_pair_frame:
  "prefixLen (record_pair c key s) = prefixLen c"
  "text' (record_pair c key s) = text' c"
  "prefixStorage (record_pair c key s) = prefixStorage c"
  by (simp_all add: record_pair_def Let_def)

lemma recorded_record_pair:
  assumes "recorded c tr"
  shows "recorded (record_pair c key s) (tr @ [(key, s)])"
proof -
  let ?c = "record_pair c key s"
  let ?inner = "go_lookup [] (pairmap c) key"
  have pm: "\<And>k. go_lookup [] (pairmap ?c) k =
      (if k = key then AList.update s (go_lookup 0 ?inner s + 1) ?inner
       else go_lookup [] (pairmap c) k)"
    by (simp add: go_lookup_def pairmap_record_pair)
  have ch: "\<And>k. go_lookup [] (chain ?c) k =
      (if k = key \<and> s \<notin> set (go_lookup [] (chain c) key) then go_lookup [] (chain c) key @ [s]
       else go_lookup [] (chain c) k)"
    by (simp add: go_lookup_def chain_record_pair)
  from assms have a1: "\<And>k. (map_of (pairmap c) k = None) = (k \<notin> fst ` set tr)"
    and a2: "\<And>k. (map_of (chain c) k = None) = (k \<notin> fst ` set tr)"
    and a3: "\<And>k. set (go_lookup [] (chain c) k) = {s. (k, s) \<in> set tr}"
    and a4: "\<And>k. distinct (go_lookup [] (chain c) k)"
    and a5: "\<And>k. fst ` set (go_lookup [] (pairmap c) k) = {s. (k, s) \<in> set tr}"
    and a6: "\<And>k s. go_lookup 0 (go_lookup [] (pairmap c) k) s = of_nat (count_list tr (k, s))"
    by (simp_all add: recorded_def)
  have b1: "\<And>k. (map_of (pairmap ?c) k = None) = (k \<notin> fst ` set (tr @ [(key, s)]))"
    using a1 by (simp add: pairmap_record_pair)
  have b2: "\<And>k. (map_of (chain ?c) k = None) = (k \<notin> fst ` set (tr @ [(key, s)]))"
  proof -
    fix k
    show "(map_of (chain ?c) k = None) = (k \<notin> fst ` set (tr @ [(key, s)]))"
    proof (cases "s \<in> set (go_lookup [] (chain c) key)")
      case True
      then have "(key, s) \<in> set tr" using a3 [of key] by simp
      then have "key \<in> fst ` set tr" by force
      with True a2 [of k] show ?thesis by (auto simp: chain_record_pair)
    next
      case False
      with a2 [of k] show ?thesis by (simp add: chain_record_pair)
    qed
  qed
  have b3: "\<And>k. set (go_lookup [] (chain ?c) k) = {s'. (k, s') \<in> set (tr @ [(key, s)])}"
    using a3 by (auto simp: ch)
  have b4: "\<And>k. distinct (go_lookup [] (chain ?c) k)"
    using a4 by (simp add: ch)
  have b5: "\<And>k. fst ` set (go_lookup [] (pairmap ?c) k) = {s'. (k, s') \<in> set (tr @ [(key, s)])}"
    using a5 by (auto simp: pm dom_update)
  have b6: "\<And>k s'. go_lookup 0 (go_lookup [] (pairmap ?c) k) s' =
      of_nat (count_list (tr @ [(key, s)]) (k, s'))"
    using a6 by (simp add: pm go_lookup_update)
  show ?thesis unfolding recorded_def by (intro conjI allI b1 b2 b3 b4 b5 b6)
qed


lemma Build_loop_ok:
  assumes "p \<noteq> []" and "recorded c tr"
  shows "\<exists>c'. Build_loop c p cur toks = Inr (c', cur @ toks) \<and>
           recorded c' (tr @ map (\<lambda>(q, s). (String q, s)) (windows p toks)) \<and>
           prefixLen c' = prefixLen c \<and> text' c' = text' c \<and>
           prefixStorage c' = prefixStorage c"
  using assms
proof (induction toks arbitrary: c p cur tr)
  case Nil
  then show ?case by simp
next
  case (Cons s toks)
  have sh: "Shift p s = Inr (tl p @ [s])" using Cons.prems(1) by (simp add: Shift_def)
  have ne: "tl p @ [s] \<noteq> []" by simp
  have re: "recorded (record_pair c (String p) s) (tr @ [(String p, s)])"
    using Cons.prems(2) by (rule recorded_record_pair)
  from Cons.IH [OF ne re, of "cur @ [s]"] sh show ?case
    by (simp add: record_pair_frame)
qed

lemma Build_ok:
  assumes "0 < sint (prefixLen c)" and "recorded c tr"
  shows "\<exists>c'. Build input c = Inr c' \<and>
           recorded c' (tr @ map (\<lambda>(q, s). (String q, s))
             (windows (replicate (nat (sint (prefixLen c))) []) (Fscan_tokens input))) \<and>
           prefixLen c' = prefixLen c \<and> text' c' = text' c @ [Fscan_tokens input] \<and>
           prefixStorage c' = prefixStorage c"
proof -
  let ?p = "replicate (nat (sint (prefixLen c))) ([] :: string)"
  have mk: "make_Prefix (prefixLen c) = Inr ?p" using assms(1) by (simp add: make_Prefix_def)
  have ne: "?p \<noteq> []" using assms(1) by simp
  from Build_loop_ok [OF ne assms(2), of "[]" "Fscan_tokens input"]
  obtain c' where c': "Build_loop c ?p [] (Fscan_tokens input) = Inr (c', Fscan_tokens input)"
    "recorded c' (tr @ map (\<lambda>(q, s). (String q, s)) (windows ?p (Fscan_tokens input)))"
    "prefixLen c' = prefixLen c" "text' c' = text' c" "prefixStorage c' = prefixStorage c"
    by auto
  have "recorded (c'\<lparr>text' := text' c' @ [Fscan_tokens input]\<rparr>)
      (tr @ map (\<lambda>(q, s). (String q, s)) (windows ?p (Fscan_tokens input)))"
    using c'(2) by (simp add: recorded_def)
  with mk c' show ?thesis by (simp add: Build_def)
qed

lemma Build_all_ok:
  assumes "0 < sint (prefixLen c)"
    and "recorded c (map (\<lambda>(q, s). (String q, s)) (encounters c))"
  shows "\<exists>c'. Build_all inputs c = Inr c' \<and>
           recorded c' (map (\<lambda>(q, s). (String q, s)) (encounters c')) \<and>
           prefixLen c' = prefixLen c \<and> text' c' = text' c @ map Fscan_tokens inputs \<and>
           prefixStorage c' = prefixStorage c"
  using assms
proof (induction inputs arbitrary: c)
  case Nil
  then show ?case by simp
next
  case (Cons input inputs)
  from Build_ok [OF Cons.prems, of input]
  obtain c1 where c1: "Build input c = Inr c1"
    "recorded c1 (map (\<lambda>(q, s). (String q, s)) (encounters c) @ map (\<lambda>(q, s). (String q, s))
       (windows (replicate (nat (sint (prefixLen c))) []) (Fscan_tokens input)))"
    "prefixLen c1 = prefixLen c" "text' c1 = text' c @ [Fscan_tokens input]"
    "prefixStorage c1 = prefixStorage c"
    by auto
  have en: "encounters c1 = encounters c @
      windows (replicate (nat (sint (prefixLen c))) []) (Fscan_tokens input)"
    using c1(3,4) by (simp add: encounters_def)
  have p1: "0 < sint (prefixLen c1)" using Cons.prems(1) c1(3) by simp
  have r1: "recorded c1 (map (\<lambda>(q, s). (String q, s)) (encounters c1))"
    using c1(2) by (simp add: en)
  from Cons.IH [OF p1 r1] c1 show ?case by auto
qed

lemma recorded_NewChain: "recorded (NewChain k) (map (\<lambda>(q, s). (String q, s)) (encounters (NewChain k)))"
  by (simp add: recorded_def NewChain_def encounters_def go_lookup_def)

lemma Build_all_NewChain:
  assumes "0 < sint k"
  shows "\<exists>c. Build_all inputs (NewChain k) = Inr c \<and>
           recorded c (map (\<lambda>(q, s). (String q, s)) (encounters c)) \<and>
           prefixLen c = k \<and> text' c = map Fscan_tokens inputs \<and> prefixStorage c = []"
  using Build_all_ok [of "NewChain k" inputs] assms recorded_NewChain [of k]
  by (simp add: NewChain_def)

subsection \<open>WriteModel\<close>

lemma line_fields_storage [simp]:
  "line_fields (c\<lparr>prefixStorage := x\<rparr>) p = line_fields c p"
  by (simp add: line_fields_def suffix_fields_def cong: if_cong)

lemma replay_ok:
  assumes "p \<noteq> []"
    and "\<forall>q\<in>fst ` set (windows p toks). go_lookup [] (chain c) (String q) \<noteq> []"
  shows "replay c p out toks =
           Inr (c\<lparr>prefixStorage := prefixStorage c @
                    map String (first_new (prefixStorage c) (map fst (windows p toks)))\<rparr>,
                out @ map (\<lambda>q. Join (line_fields c q) '' '')
                        (first_new (prefixStorage c) (map fst (windows p toks))))"
  using assms
proof (induction toks arbitrary: c p out)
  case Nil
  then show ?case by simp
next
  case (Cons s toks)
  have sh: "Shift p s = Inr (tl p @ [s])" using Cons.prems(1) by (simp add: Shift_def)
  have ne: "tl p @ [s] \<noteq> []" by simp
  have here: "go_lookup [] (chain c) (String p) \<noteq> []" using Cons.prems(2) by simp
  show ?case
  proof (cases "String p \<in> set (prefixStorage c)")
    case True
    have "\<forall>q\<in>fst ` set (windows (tl p @ [s]) toks). go_lookup [] (chain c) (String q) \<noteq> []"
      using Cons.prems(2) by simp
    from Cons.IH [OF ne this, of out] True here sh show ?thesis
      by (simp add: Find_iff)
  next
    case False
    let ?c = "c\<lparr>prefixStorage := prefixStorage c @ [String p]\<rparr>"
    have "\<forall>q\<in>fst ` set (windows (tl p @ [s]) toks). go_lookup [] (chain ?c) (String q) \<noteq> []"
      using Cons.prems(2) by simp
    from Cons.IH [OF ne this, of "out @ [Join (line_fields c p) '' '']"] False here sh
    show ?thesis by (simp add: Find_iff)
  qed
qed

lemma first_new_append:
  "first_new seen (xs @ ys) =
     first_new seen xs @ first_new (seen @ map String (first_new seen xs)) ys"
  by (induction xs arbitrary: seen) auto

lemma replay_all_ok:
  assumes "0 < sint (prefixLen c)"
    and "\<forall>q\<in>fst ` set (concat (map (windows (replicate (nat (sint (prefixLen c))) [])) ts)).
           go_lookup [] (chain c) (String q) \<noteq> []"
  shows "replay_all c out ts =
           Inr (c\<lparr>prefixStorage := prefixStorage c @
                    map String (first_new (prefixStorage c)
                      (map fst (concat (map (windows (replicate (nat (sint (prefixLen c))) [])) ts))))\<rparr>,
                out @ map (\<lambda>q. Join (line_fields c q) '' '')
                        (first_new (prefixStorage c)
                      (map fst (concat (map (windows (replicate (nat (sint (prefixLen c))) [])) ts)))))"
  using assms
proof (induction ts arbitrary: c out)
  case Nil
  then show ?case by simp
next
  case (Cons t ts)
  let ?p = "replicate (nat (sint (prefixLen c))) ([] :: string)"
  let ?new = "first_new (prefixStorage c) (map fst (windows ?p t))"
  let ?c = "c\<lparr>prefixStorage := prefixStorage c @ map String ?new\<rparr>"
  have mk: "make_Prefix (prefixLen c) = Inr ?p" using Cons.prems(1) by (simp add: make_Prefix_def)
  have ne: "?p \<noteq> []" using Cons.prems(1) by simp
  have "\<forall>q\<in>fst ` set (windows ?p t). go_lookup [] (chain c) (String q) \<noteq> []"
    using Cons.prems(2) by auto
  from replay_ok [OF ne this, of out]
  have r: "replay c ?p out t = Inr (?c, out @ map (\<lambda>q. Join (line_fields c q) '' '') ?new)" .
  have p1: "0 < sint (prefixLen ?c)" using Cons.prems(1) by simp
  have "\<forall>q\<in>fst ` set (concat (map (windows (replicate (nat (sint (prefixLen ?c))) [])) ts)).
           go_lookup [] (chain ?c) (String q) \<noteq> []"
    using Cons.prems(2) by auto
  from Cons.IH [OF p1 this, of "out @ map (\<lambda>q. Join (line_fields c q) '' '') ?new"] mk r
  show ?case by (simp add: first_new_append)
qed

lemma first_occurrences_Cons:
  "rev (remdups (rev (x # xs))) = x # filter (\<lambda>y. y \<noteq> x) (rev (remdups (rev xs)))"
proof -
  have "remdups (ys @ [x]) = filter (\<lambda>y. y \<noteq> x) (remdups ys) @ [x]" for ys
    by (induction ys) auto
  from this [of "rev xs"] show ?thesis by (simp add: rev_filter)
qed

lemma first_new_keys:
  "map String (first_new seen qs) =
     filter (\<lambda>k. k \<notin> set seen) (rev (remdups (rev (map String qs))))"
proof (induction qs arbitrary: seen)
  case Nil
  show ?case by simp
next
  case (Cons q qs)
  have f: "\<And>P xs. filter P (filter (\<lambda>y. y \<noteq> String q) xs) =
      filter (\<lambda>y. P y \<and> y \<noteq> String q) xs"
    by (simp add: conj_commute)
  show ?case
  proof (cases "String q \<in> set seen")
    case True
    then have "\<And>y. (y \<notin> set seen \<and> y \<noteq> String q) = (y \<notin> set seen)" by auto
    with True Cons [of seen] show ?thesis
      by (simp only: first_new.simps list.map first_occurrences_Cons filter.simps f if_True if_False not_True_eq_False not_not)
  next
    case False
    then show ?thesis
      using Cons [of "seen @ [String q]"]
      by (simp only: first_new.simps list.map first_occurrences_Cons filter.simps f if_True if_False)
         (simp add: conj_commute)
  qed
qed

lemma first_new_subset: "set (first_new seen qs) \<subseteq> set qs"
  by (induction qs arbitrary: seen) auto

lemma recorded_keys:
  assumes "recorded c (map (\<lambda>(q, s). (String q, s)) (encounters c))"
  shows "fst ` set (pairmap c) = String ` fst ` set (encounters c)"
proof -
  have "\<And>key. (key \<notin> fst ` set (pairmap c)) =
      (key \<notin> fst ` set (map (\<lambda>(q, s). (String q, s)) (encounters c)))"
    using assms by (simp add: recorded_def map_of_eq_None_iff)
  then have "fst ` set (pairmap c) = fst ` set (map (\<lambda>(q, s). (String q, s)) (encounters c))"
    by blast
  also have "\<dots> = String ` fst ` set (encounters c)" by force
  finally show ?thesis .
qed

lemma recorded_choices:
  assumes "recorded c (map (\<lambda>(q, s). (String q, s)) (encounters c))"
    and "q \<in> fst ` set (encounters c)"
  shows "go_lookup [] (chain c) (String q) \<noteq> []"
proof -
  from assms(2) obtain s where "(q, s) \<in> set (encounters c)" by force
  then have "(String q, s) \<in> set (map (\<lambda>(q, s). (String q, s)) (encounters c))" by force
  moreover have "set (go_lookup [] (chain c) (String q)) =
      {s. (String q, s) \<in> set (map (\<lambda>(q, s). (String q, s)) (encounters c))}"
    using assms(1) by (simp add: recorded_def)
  ultimately have "s \<in> set (go_lookup [] (chain c) (String q))" by blast
  then show ?thesis by auto
qed

lemma WriteModel_built:
  assumes "0 < sint k" and "Build_all inputs (NewChain k) = Inr c"
  shows "WriteModel c =
           Inr (c\<lparr>prefixStorage := map String (first_new [] (map fst (encounters c)))\<rparr>,
                Itoa k # map (\<lambda>q. Join (line_fields c q) '' '')
                           (first_new [] (map fst (encounters c))))"
    and "recorded c (map (\<lambda>(q, s). (String q, s)) (encounters c))"
    and "prefixLen c = k" and "text' c = map Fscan_tokens inputs" and "prefixStorage c = []"
proof -
  from Build_all_NewChain [OF assms(1), of inputs] assms(2)
  show re: "recorded c (map (\<lambda>(q, s). (String q, s)) (encounters c))"
    and k: "prefixLen c = k" and "text' c = map Fscan_tokens inputs"
    and ps: "prefixStorage c = []"
    by auto
  have p: "0 < sint (prefixLen c)" using assms(1) k by simp
  have "\<forall>q\<in>fst ` set (concat (map (windows (replicate (nat (sint (prefixLen c))) [])) (text' c))).
           go_lookup [] (chain c) (String q) \<noteq> []"
    using recorded_choices [OF re] by (simp add: encounters_def)
  from replay_all_ok [OF p this, of "[Itoa (prefixLen c)]"] ps k
  show "WriteModel c =
           Inr (c\<lparr>prefixStorage := map String (first_new [] (map fst (encounters c)))\<rparr>,
                Itoa k # map (\<lambda>q. Join (line_fields c q) '' '')
                           (first_new [] (map fst (encounters c))))"
    by (simp add: WriteModel_def encounters_def)
qed

subsection \<open>Orders below 1\<close>

text \<open>With an order of 0 \<open>Build\<close> panics at the first token, and with a negative order
  at once. Where it returns, the inputs had no token and the tables are empty.\<close>

lemma Build_small_order:
  assumes "sint (prefixLen c) \<le> 0" and "Build input c = Inr c'"
  shows "c' = c\<lparr>text' := text' c @ [[]]\<rparr> \<and> Fscan_tokens input = [] \<and> sint (prefixLen c) = 0"
proof -
  from assms(2) have nn: "\<not> sint (prefixLen c) < 0"
    by (auto simp: Build_def make_Prefix_def split: if_splits)
  with assms(1) have z: "sint (prefixLen c) = 0" by simp
  from assms(2) z obtain c1 cur where
    l: "Build_loop c [] [] (Fscan_tokens input) = Inr (c1, cur)"
    and c': "c' = c1\<lparr>text' := text' c1 @ [cur]\<rparr>"
    by (auto simp: Build_def make_Prefix_def split: sum.splits)
  from l have e: "Fscan_tokens input = []"
    by (cases "Fscan_tokens input") (simp_all add: Shift_def)
  with l have "c1 = c" "cur = []" by simp_all
  with c' e z show ?thesis by simp
qed

lemma Build_all_small_order:
  assumes "sint (prefixLen c) \<le> 0" and "Build_all inputs c = Inr c'"
  shows "chain c' = chain c \<and> pairmap c' = pairmap c \<and> prefixStorage c' = prefixStorage c \<and>
         prefixLen c' = prefixLen c \<and> text' c' = text' c @ map Fscan_tokens inputs \<and>
         (\<forall>t\<in>set (map Fscan_tokens inputs). t = []) \<and>
         (inputs \<noteq> [] \<longrightarrow> sint (prefixLen c) = 0)"
  using assms
proof (induction inputs arbitrary: c)
  case Nil
  then show ?case by simp
next
  case (Cons input inputs)
  from Cons.prems(2) obtain c1 where b: "Build input c = Inr c1"
    and r: "Build_all inputs c1 = Inr c'"
    by (auto split: sum.splits)
  note s = Build_small_order [OF Cons.prems(1) b]
  from s Cons.prems(1) have p1: "sint (prefixLen c1) \<le> 0" by simp
  from Cons.IH [OF p1 r] s show ?case by simp
qed

lemma replay_all_empty_texts:
  assumes "\<forall>t\<in>set ts. t = []" and "ts \<noteq> [] \<longrightarrow> 0 \<le> sint (prefixLen c)"
  shows "replay_all c out ts = Inr (c, out)"
  using assms by (induction ts) (simp_all add: make_Prefix_def)

lemma windows_empty_texts:
  "\<forall>t\<in>set ts. t = [] \<Longrightarrow> concat (map (windows p) ts) = []"
  by (induction ts) simp_all

lemma WriteModel_built_small:
  assumes "sint k \<le> 0" and "Build_all inputs (NewChain k) = Inr c"
  shows "WriteModel c = Inr (c, [Itoa k])" and "encounters c = []"
    and "chain c = []" and "pairmap c = []"
    and "prefixLen c = k" and "text' c = map Fscan_tokens inputs" and "prefixStorage c = []"
proof -
  have "sint (prefixLen (NewChain k)) \<le> 0" using assms(1) by (simp add: NewChain_def)
  from Build_all_small_order [OF this assms(2)]
  have f: "chain c = []" "pairmap c = []" "prefixStorage c = []" "prefixLen c = k"
    "text' c = map Fscan_tokens inputs" "\<forall>t\<in>set (text' c). t = []"
    "text' c \<noteq> [] \<longrightarrow> 0 \<le> sint (prefixLen c)"
    by (simp_all add: NewChain_def)
  from f show "chain c = []" "pairmap c = []" "prefixLen c = k"
    "text' c = map Fscan_tokens inputs" "prefixStorage c = []"
    by simp_all
  from replay_all_empty_texts [OF f(6,7)] f(4) show "WriteModel c = Inr (c, [Itoa k])"
    by (simp add: WriteModel_def)
  from windows_empty_texts [OF f(6)] show "encounters c = []" by (simp add: encounters_def)
qed

text \<open>What \<open>WriteModel\<close> does on a chain that \<open>Build\<close> calls have filled, for every order.\<close>

lemma WriteModel_after_Build:
  assumes "Build_all inputs (NewChain k) = Inr c"
  shows "WriteModel c =
           Inr (c\<lparr>prefixStorage := map String (first_new [] (map fst (encounters c)))\<rparr>,
                Itoa k # map (\<lambda>q. Join (line_fields c q) '' '')
                           (first_new [] (map fst (encounters c))))"
    and "recorded c (map (\<lambda>(q, s). (String q, s)) (encounters c))"
    and "prefixLen c = k" and "text' c = map Fscan_tokens inputs" and "prefixStorage c = []"
proof -
  have "(WriteModel c =
           Inr (c\<lparr>prefixStorage := map String (first_new [] (map fst (encounters c)))\<rparr>,
                Itoa k # map (\<lambda>q. Join (line_fields c q) '' '')
                           (first_new [] (map fst (encounters c)))))
    \<and> recorded c (map (\<lambda>(q, s). (String q, s)) (encounters c))
    \<and> prefixLen c = k \<and> text' c = map Fscan_tokens inputs \<and> prefixStorage c = []"
  proof (cases "0 < sint k")
    case True
    from WriteModel_built [OF True assms] show ?thesis by blast
  next
    case False
    then have "sint k \<le> 0" by simp
    note s = WriteModel_built_small [OF this assms]
    have "recorded c (map (\<lambda>(q, s). (String q, s)) (encounters c))"
      by (simp add: recorded_def s go_lookup_def)
    moreover have "c\<lparr>prefixStorage := []\<rparr> = c" using s(7) by simp
    ultimately show ?thesis using s by simp
  qed
  then show "WriteModel c =
           Inr (c\<lparr>prefixStorage := map String (first_new [] (map fst (encounters c)))\<rparr>,
                Itoa k # map (\<lambda>q. Join (line_fields c q) '' '')
                           (first_new [] (map fst (encounters c))))"
    and "recorded c (map (\<lambda>(q, s). (String q, s)) (encounters c))"
    and "prefixLen c = k" and "text' c = map Fscan_tokens inputs" and "prefixStorage c = []"
    by blast+
qed

subsection \<open>One line for each prefix\<close>

lemma first_new_all_keys:
  "map String (first_new [] qs) = rev (remdups (rev (map String qs)))"
  by (simp add: first_new_keys)

lemma count_list_distinct:
  "distinct xs \<Longrightarrow> count_list xs k = (if k \<in> set xs then 1 else 0)"
  by (induction xs) auto

text \<open>
  Claim C2. In the replay of \<open>WriteModel\<close> on a chain that \<open>Build\<close> calls have filled, a
  line is written for a prefix where its key is met for the first time and at no later
  meeting: the lines after the first are the lines of prefixes \<open>qs\<close> whose keys are the
  keys met in the replay, each once, in the order of their first meeting. They are the
  keys of the table, so the file has one line after the first for each of them.
\<close>

theorem WriteModel_one_line_per_prefix:
  assumes "Build_all inputs (NewChain k) = Inr c"
  shows "\<exists>qs. WriteModel c =
                Inr (c\<lparr>prefixStorage := map String qs\<rparr>,
                     Itoa k # map (\<lambda>q. Join (line_fields c q) '' '') qs)
           \<and> map String qs = rev (remdups (rev (map (\<lambda>(q, s). String q) (encounters c))))
           \<and> distinct (map String qs)
           \<and> set (map String qs) = fst ` set (pairmap c)
           \<and> length qs = card (fst ` set (pairmap c))"
proof -
  let ?qs = "first_new [] (map fst (encounters c))"
  note w = WriteModel_after_Build [OF assms]
  have m: "map String \<circ> map fst = map (\<lambda>(q, s). String q)"
    by (auto simp: fun_eq_iff)
  have ks: "map String ?qs = rev (remdups (rev (map (\<lambda>(q, s). String q) (encounters c))))"
    using first_new_all_keys [of "map fst (encounters c)"]
    by (simp add: case_prod_unfold comp_def)
  have d: "distinct (map String ?qs)" by (simp add: ks)
  have s: "set (map String ?qs) = fst ` set (pairmap c)"
    by (simp add: ks recorded_keys [OF w(2)] image_image case_prod_unfold)
  have "length ?qs = length (map String ?qs)" by simp
  also have "\<dots> = card (set (map String ?qs))" using d by (rule distinct_card [symmetric])
  finally have l: "length ?qs = card (fst ` set (pairmap c))" by (simp only: s)
  from w(1) ks d s l show ?thesis by blast
qed

theorem WriteModel_one_line_per_prefix_witness:
  "Build_all [''a b a b''] (NewChain 1) =
     Inr \<lparr>chain = [([], [''a'']), (''a'', [''b'']), (''b'', [''a''])], prefixLen = 1,
          text' = [[''a'', ''b'', ''a'', ''b'']],
          pairmap = [([], [(''a'', 1)]), (''a'', [(''b'', 2)]), (''b'', [(''a'', 1)])],
          prefixStorage = []\<rparr> \<and>
   WriteModel \<lparr>chain = [([], [''a'']), (''a'', [''b'']), (''b'', [''a''])], prefixLen = 1,
          text' = [[''a'', ''b'', ''a'', ''b'']],
          pairmap = [([], [(''a'', 1)]), (''a'', [(''b'', 2)]), (''b'', [(''a'', 1)])],
          prefixStorage = []\<rparr> =
     Inr (\<lparr>chain = [([], [''a'']), (''a'', [''b'']), (''b'', [''a''])], prefixLen = 1,
          text' = [[''a'', ''b'', ''a'', ''b'']],
          pairmap = [([], [(''a'', 1)]), (''a'', [(''b'', 2)]), (''b'', [(''a'', 1)])],
          prefixStorage = [[], ''a'', ''b'']\<rparr>,
          [''1'', [CHR 0x22, CHR 0x22, CHR '' '', CHR ''a'', CHR '' '', CHR ''1''],
           ''a b 2'', ''b a 1''])"
proof -
  let ?C = "\<lparr>chain = [([], [''a'']), (''a'', [''b'']), (''b'', [''a''])], prefixLen = 1,
          text' = [[''a'', ''b'', ''a'', ''b'']],
          pairmap = [([], [(''a'', 1)]), (''a'', [(''b'', 2)]), (''b'', [(''a'', 1)])],
          prefixStorage = []\<rparr>"
  have h2: "Build_all [''a b a b''] (NewChain 1) = Inr ?C"
    by (simp add: lib_eval prog_eval)
  from WriteModel_one_line_per_prefix [OF h2]
  obtain qs where w: "WriteModel ?C =
                Inr (?C\<lparr>prefixStorage := map String qs\<rparr>,
                     Itoa 1 # map (\<lambda>q. Join (line_fields ?C q) '' '') qs)" by blast
  have e: "WriteModel ?C = Inr (?C\<lparr>prefixStorage := [[], ''a'', ''b'']\<rparr>,
          [''1'', [CHR 0x22, CHR 0x22, CHR '' '', CHR ''a'', CHR '' '', CHR ''1''],
           ''a b 2'', ''b a 1''])"
    by (simp add: lib_eval prog_eval)
  from h2 e w show ?thesis by simp
qed


text \<open>
  Claim C8 as stated fails: \<open>Build\<close> never touches \<open>prefixStorage\<close>. After \<open>Build\<close> on the
  one token \<open>a\<close> the table has the key of the empty prefix, and \<open>prefixStorage\<close> is empty.
\<close>

theorem Build_leaves_prefixStorage_empty:
  "Build_all [''a''] (NewChain 1) =
     Inr \<lparr>chain = [([], [''a''])], prefixLen = 1, text' = [[''a'']],
          pairmap = [([], [(''a'', 1)])], prefixStorage = []\<rparr>"
  by (simp add: lib_eval prog_eval)

text \<open>
  Claim C8, as amended. \<open>Build\<close> leaves \<open>prefixStorage\<close> as it is, empty on a new chain;
  the list is filled by the replay of \<open>WriteModel\<close>, which appends a key where it meets it
  for the first time. So after any sequence of \<open>Build\<close> calls on a new chain, followed by
  \<open>WriteModel\<close>, a key is in the table if and only if it occurs exactly once in the list.
\<close>

theorem prefixStorage_filled_by_WriteModel:
  assumes "Build_all inputs (NewChain k) = Inr c"
  shows "prefixStorage c = [] \<and>
         (\<exists>c' out. WriteModel c = Inr (c', out) \<and> pairmap c' = pairmap c \<and>
            (\<forall>key. (key \<in> fst ` set (pairmap c')) = (count_list (prefixStorage c') key = 1)))"
proof -
  let ?qs = "first_new [] (map fst (encounters c))"
  note w = WriteModel_after_Build [OF assms]
  have d: "distinct (map String ?qs)" by (simp add: first_new_all_keys)
  have "set (map String ?qs) = String ` fst ` set (encounters c)"
    by (simp add: first_new_all_keys image_image)
  then have s: "set (map String ?qs) = fst ` set (pairmap c)"
    by (simp only: recorded_keys [OF w(2)])
  have "\<forall>key. (key \<in> fst ` set (pairmap c)) = (count_list (map String ?qs) key = 1)"
    using s by (simp add: count_list_distinct [OF d])
  with w(1) w(5) show ?thesis by simp
qed

theorem prefixStorage_filled_by_WriteModel_witness:
  "Build_all [''a b a b''] (NewChain 1) =
     Inr \<lparr>chain = [([], [''a'']), (''a'', [''b'']), (''b'', [''a''])], prefixLen = 1,
          text' = [[''a'', ''b'', ''a'', ''b'']],
          pairmap = [([], [(''a'', 1)]), (''a'', [(''b'', 2)]), (''b'', [(''a'', 1)])],
          prefixStorage = []\<rparr> \<and>
   (\<exists>c' out. WriteModel \<lparr>chain = [([], [''a'']), (''a'', [''b'']), (''b'', [''a''])],
          prefixLen = 1, text' = [[''a'', ''b'', ''a'', ''b'']],
          pairmap = [([], [(''a'', 1)]), (''a'', [(''b'', 2)]), (''b'', [(''a'', 1)])],
          prefixStorage = []\<rparr> = Inr (c', out) \<and>
      pairmap c' = [([], [(''a'', 1)]), (''a'', [(''b'', 2)]), (''b'', [(''a'', 1)])] \<and>
      (\<forall>key. (key \<in> fst ` set (pairmap c')) = (count_list (prefixStorage c') key = 1)))"
proof -
  have h2: "Build_all [''a b a b''] (NewChain 1) =
     Inr \<lparr>chain = [([], [''a'']), (''a'', [''b'']), (''b'', [''a''])], prefixLen = 1,
          text' = [[''a'', ''b'', ''a'', ''b'']],
          pairmap = [([], [(''a'', 1)]), (''a'', [(''b'', 2)]), (''b'', [(''a'', 1)])],
          prefixStorage = []\<rparr>"
    by (simp add: lib_eval prog_eval)
  from prefixStorage_filled_by_WriteModel [OF h2] h2 show ?thesis by simp
qed

subsection \<open>No empty suffix\<close>

lemma record_pair_lookups:
  "go_lookup [] (pairmap (record_pair c key s)) k =
     (if k = key
      then AList.update s (go_lookup 0 (go_lookup [] (pairmap c) key) s + 1)
             (go_lookup [] (pairmap c) key)
      else go_lookup [] (pairmap c) k)"
  "go_lookup [] (chain (record_pair c key s)) k =
     (if k = key \<and> s \<notin> set (go_lookup [] (chain c) key) then go_lookup [] (chain c) key @ [s]
      else go_lookup [] (chain c) k)"
  by (simp_all add: go_lookup_def pairmap_record_pair chain_record_pair)

lemma Build_loop_nonempty:
  assumes "Build_loop c p cur toks = Inr (c', cur')" and "[] \<notin> set toks"
    and "\<forall>key. [] \<notin> set (go_lookup [] (chain c) key) \<and>
           [] \<notin> fst ` set (go_lookup [] (pairmap c) key)"
  shows "\<forall>key. [] \<notin> set (go_lookup [] (chain c') key) \<and>
           [] \<notin> fst ` set (go_lookup [] (pairmap c') key)"
  using assms
proof (induction toks arbitrary: c p cur)
  case Nil
  then show ?case by simp
next
  case (Cons s toks)
  from Cons.prems(1) obtain p' where
    l: "Build_loop (record_pair c (String p) s) p' (cur @ [s]) toks = Inr (c', cur')"
    by (auto split: sum.splits)
  have s: "s \<noteq> []" and t: "[] \<notin> set toks" using Cons.prems(2) by auto
  have "\<forall>key. [] \<notin> set (go_lookup [] (chain (record_pair c (String p) s)) key) \<and>
           [] \<notin> fst ` set (go_lookup [] (pairmap (record_pair c (String p) s)) key)"
    using Cons.prems(3) s by (auto simp: record_pair_lookups dom_update)
  from Cons.IH [OF l t this] show ?case .
qed

lemma Build_all_nonempty:
  assumes "Build_all inputs c = Inr c'"
    and "\<forall>key. [] \<notin> set (go_lookup [] (chain c) key) \<and>
           [] \<notin> fst ` set (go_lookup [] (pairmap c) key)"
  shows "\<forall>key. [] \<notin> set (go_lookup [] (chain c') key) \<and>
           [] \<notin> fst ` set (go_lookup [] (pairmap c') key)"
  using assms
proof (induction inputs arbitrary: c)
  case Nil
  then show ?case by simp
next
  case (Cons input inputs)
  from Cons.prems(1) obtain c1 where b: "Build input c = Inr c1"
    and r: "Build_all inputs c1 = Inr c'"
    by (auto split: sum.splits)
  from b obtain p c2 cur where l: "Build_loop c p [] (Fscan_tokens input) = Inr (c2, cur)"
    and c1: "c1 = c2\<lparr>text' := text' c2 @ [cur]\<rparr>"
    by (auto simp: Build_def split: sum.splits)
  have "[] \<notin> set (Fscan_tokens input)" using Fscan_tokens_good [of "[]" input] by auto
  from Build_loop_nonempty [OF l this Cons.prems(2)] c1
  have "\<forall>key. [] \<notin> set (go_lookup [] (chain c1) key) \<and>
           [] \<notin> fst ` set (go_lookup [] (pairmap c1) key)"
    by simp
  from Cons.IH [OF r this] show ?case .
qed

text \<open>
  Claim C9. Every suffix that \<open>Build\<close> records, in \<open>chain\<close> and in \<open>pairmap\<close>, is a token
  that \<open>fmt.Fscan\<close> returned and so is not the empty string. The choices that
  \<open>WriteModel\<close> goes through for a prefix therefore never take the branch for an empty
  word: the fields written for them are the pairs of a word and its count.
\<close>

theorem Build_records_no_empty_suffix:
  assumes "Build_all inputs (NewChain k) = Inr c"
  shows "[] \<notin> set (go_lookup [] (chain c) key) \<and>
         [] \<notin> fst ` set (go_lookup [] (pairmap c) key) \<and>
         suffix_fields c p (go_lookup [] (chain c) (String p)) =
           concat (map (\<lambda>word. [word, Itoa (go_lookup 0 (go_lookup [] (pairmap c) (String p)) word)])
                    (go_lookup [] (chain c) (String p)))"
proof -
  have "\<forall>key. [] \<notin> set (go_lookup [] (chain (NewChain k)) key) \<and>
           [] \<notin> fst ` set (go_lookup [] (pairmap (NewChain k)) key)"
    by (simp add: NewChain_def go_lookup_def)
  from Build_all_nonempty [OF assms this]
  have n: "\<forall>key. [] \<notin> set (go_lookup [] (chain c) key) \<and>
           [] \<notin> fst ` set (go_lookup [] (pairmap c) key)" .
  then have "[] \<notin> set (go_lookup [] (chain c) (String p))" by blast
  then have eq: "map (\<lambda>word. if word = [] then [Quote_empty]
                          else [word, Itoa (go_lookup 0 (go_lookup [] (pairmap c) (String p)) word)])
                 (go_lookup [] (chain c) (String p)) =
             map (\<lambda>word. [word, Itoa (go_lookup 0 (go_lookup [] (pairmap c) (String p)) word)])
                 (go_lookup [] (chain c) (String p))"
    by (intro map_cong) auto
  have "suffix_fields c p (go_lookup [] (chain c) (String p)) =
           concat (map (\<lambda>word. [word, Itoa (go_lookup 0 (go_lookup [] (pairmap c) (String p)) word)])
                    (go_lookup [] (chain c) (String p)))"
    unfolding suffix_fields_def by (simp only: eq)
  with n show ?thesis by blast
qed

theorem Build_records_no_empty_suffix_witness:
  "Build_all [''a b a b''] (NewChain 1) =
     Inr \<lparr>chain = [([], [''a'']), (''a'', [''b'']), (''b'', [''a''])], prefixLen = 1,
          text' = [[''a'', ''b'', ''a'', ''b'']],
          pairmap = [([], [(''a'', 1)]), (''a'', [(''b'', 2)]), (''b'', [(''a'', 1)])],
          prefixStorage = []\<rparr> \<and>
   suffix_fields \<lparr>chain = [([], [''a'']), (''a'', [''b'']), (''b'', [''a''])], prefixLen = 1,
          text' = [[''a'', ''b'', ''a'', ''b'']],
          pairmap = [([], [(''a'', 1)]), (''a'', [(''b'', 2)]), (''b'', [(''a'', 1)])],
          prefixStorage = []\<rparr> [''a''] [''b''] = [''b'', ''2'']"
proof -
  have h: "Build_all [''a b a b''] (NewChain 1) =
     Inr \<lparr>chain = [([], [''a'']), (''a'', [''b'']), (''b'', [''a''])], prefixLen = 1,
          text' = [[''a'', ''b'', ''a'', ''b'']],
          pairmap = [([], [(''a'', 1)]), (''a'', [(''b'', 2)]), (''b'', [(''a'', 1)])],
          prefixStorage = []\<rparr>"
    by (simp add: lib_eval prog_eval)
  from Build_records_no_empty_suffix [OF h, of "''a''" "[''a'']"] h show ?thesis
    by (simp add: lib_eval)
qed

subsection \<open>The lines that WriteModel writes\<close>

lemma windows_members:
  "p \<noteq> [] \<Longrightarrow> (q, s) \<in> set (windows p toks) \<Longrightarrow>
     length q = length p \<and> set q \<subseteq> set p \<union> set toks \<and> s \<in> set toks"
proof (induction toks arbitrary: p)
  case Nil
  then show ?case by simp
next
  case (Cons t toks)
  show ?case
  proof (cases "(q, s) = (p, t)")
    case True
    then show ?thesis by auto
  next
    case False
    with Cons.prems have m: "(q, s) \<in> set (windows (tl p @ [t]) toks)" by auto
    have "tl p @ [t] \<noteq> []" by simp
    from Cons.IH [OF this m] Cons.prems(1) show ?thesis
      by (cases p) auto
  qed
qed

lemma encounters_members:
  assumes "0 < sint (prefixLen c)" and "(q, s) \<in> set (encounters c)"
  shows "length q = nat (sint (prefixLen c))"
    and "set q \<subseteq> insert [] (set (concat (text' c)))"
    and "s \<in> set (concat (text' c))"
proof -
  let ?p = "replicate (nat (sint (prefixLen c))) ([] :: string)"
  from assms(2) obtain t where t: "t \<in> set (text' c)" and m: "(q, s) \<in> set (windows ?p t)"
    by (auto simp: encounters_def)
  have "?p \<noteq> []" using assms(1) by simp
  from windows_members [OF this m] t
  show "length q = nat (sint (prefixLen c))"
    and "set q \<subseteq> insert [] (set (concat (text' c)))"
    and "s \<in> set (concat (text' c))"
    by auto
qed

lemma built_choices:
  assumes "recorded c (map (\<lambda>(q, s). (String q, s)) (encounters c))"
  shows "set (go_lookup [] (chain c) key) = {s. 0 < times_followed c key s}"
    and "distinct (go_lookup [] (chain c) key)"
    and "fst ` set (go_lookup [] (pairmap c) key) = set (go_lookup [] (chain c) key)"
    and "go_lookup 0 (go_lookup [] (pairmap c) key) s = of_nat (times_followed c key s)"
    and "0 < sint (prefixLen c) \<Longrightarrow> set (go_lookup [] (chain c) key) \<subseteq> set (concat (text' c))"
proof -
  let ?tr = "map (\<lambda>(q, s). (String q, s)) (encounters c)"
  from assms have a3: "set (go_lookup [] (chain c) key) = {s. (key, s) \<in> set ?tr}"
    and a4: "distinct (go_lookup [] (chain c) key)"
    and a5: "fst ` set (go_lookup [] (pairmap c) key) = {s. (key, s) \<in> set ?tr}"
    and a6: "go_lookup 0 (go_lookup [] (pairmap c) key) s = of_nat (count_list ?tr (key, s))"
    by (simp_all add: recorded_def)
  have pos: "\<And>x. (0 < count_list ?tr x) = (x \<in> set ?tr)"
    using count_list_0_iff [of ?tr] by (metis gr0I less_numeral_extra(3))
  show "set (go_lookup [] (chain c) key) = {s. 0 < times_followed c key s}"
    unfolding times_followed_def pos by (rule a3)
  show "distinct (go_lookup [] (chain c) key)" by (rule a4)
  show "fst ` set (go_lookup [] (pairmap c) key) = set (go_lookup [] (chain c) key)"
    by (simp only: a3 a5)
  show "go_lookup 0 (go_lookup [] (pairmap c) key) s = of_nat (times_followed c key s)"
    unfolding times_followed_def by (rule a6)
  show "set (go_lookup [] (chain c) key) \<subseteq> set (concat (text' c))" if p: "0 < sint (prefixLen c)"
  proof
    fix s assume "s \<in> set (go_lookup [] (chain c) key)"
    then have "(key, s) \<in> set ?tr" by (simp add: a3)
    then obtain q where "(q, s) \<in> set (encounters c)" by auto
    from encounters_members(3) [OF p this] show "s \<in> set (concat (text' c))" .
  qed
qed

lemma Quote_empty_field: "Quote_empty \<noteq> [] \<and> (\<forall>ch\<in>set Quote_empty. \<not> isSpace ch)"
  by (simp add: Quote_empty_def isSpace_def)

lemma Itoa_field: "Itoa i \<noteq> [] \<and> (\<forall>ch\<in>set (Itoa i). \<not> isSpace ch)"
proof -
  have "\<forall>ch\<in>set ''-0123456789''. \<not> isSpace ch" by (simp add: isSpace_def)
  with Itoa_chars [of i] Itoa_not_Nil [of i] show ?thesis by blast
qed

lemma line_fields_are_fields:
  assumes "\<forall>t\<in>set q. t = [] \<or> (t \<noteq> [] \<and> (\<forall>ch\<in>set t. \<not> isSpace ch))"
    and "\<forall>t\<in>set (go_lookup [] (chain c) (String q)). t \<noteq> [] \<and> (\<forall>ch\<in>set t. \<not> isSpace ch)"
  shows "line_fields c q = prefix_fields q @
           concat (map (\<lambda>s. [s, Itoa (go_lookup 0 (go_lookup [] (pairmap c) (String q)) s)])
                    (go_lookup [] (chain c) (String q)))"
    and "\<forall>f\<in>set (line_fields c q). f \<noteq> [] \<and> (\<forall>ch\<in>set f. \<not> isSpace ch)"
proof -
  let ?ws = "go_lookup [] (chain c) (String q)"
  let ?pair = "\<lambda>s. [s, Itoa (go_lookup 0 (go_lookup [] (pairmap c) (String q)) s)]"
  have eq: "map (\<lambda>word. if word = [] then [Quote_empty] else ?pair word) ?ws = map ?pair ?ws"
    using assms(2) by (intro map_cong) auto
  show lf: "line_fields c q = prefix_fields q @ concat (map ?pair ?ws)"
    unfolding line_fields_def suffix_fields_def by (simp only: eq)
  have p: "\<forall>f\<in>set (prefix_fields q). f \<noteq> [] \<and> (\<forall>ch\<in>set f. \<not> isSpace ch)"
    using assms(1) Quote_empty_field by (auto simp: prefix_fields_def)
  have s: "\<forall>f\<in>set (concat (map ?pair ?ws)). f \<noteq> [] \<and> (\<forall>ch\<in>set f. \<not> isSpace ch)"
    using assms(2) Itoa_field by auto
  from p s show "\<forall>f\<in>set (line_fields c q). f \<noteq> [] \<and> (\<forall>ch\<in>set f. \<not> isSpace ch)"
    unfolding lf by auto
qed

lemma built_line:
  assumes "0 < sint k" and "Build_all inputs (NewChain k) = Inr c"
    and "q \<in> fst ` set (encounters c)"
  shows "length q = nat (sint k)"
    and "\<forall>t\<in>set q. t = [] \<or> t \<in> set (concat (map Fscan_tokens inputs))"
    and "set (go_lookup [] (chain c) (String q)) \<subseteq> set (concat (map Fscan_tokens inputs))"
    and "line_fields c q = prefix_fields q @
           concat (map (\<lambda>s. [s, Itoa (go_lookup 0 (go_lookup [] (pairmap c) (String q)) s)])
                    (go_lookup [] (chain c) (String q)))"
    and "\<forall>f\<in>set (line_fields c q). f \<noteq> [] \<and> (\<forall>ch\<in>set f. \<not> isSpace ch)"
proof -
  note w = WriteModel_built [OF assms(1,2)]
  have p: "0 < sint (prefixLen c)" using assms(1) w(3) by simp
  from assms(3) obtain s where m: "(q, s) \<in> set (encounters c)" by force
  from encounters_members [OF p m] w(3,4)
  show l: "length q = nat (sint k)"
    and t: "\<forall>t\<in>set q. t = [] \<or> t \<in> set (concat (map Fscan_tokens inputs))"
    by auto
  from built_choices(5) [OF w(2) p] w(4)
  show ws: "set (go_lookup [] (chain c) (String q)) \<subseteq> set (concat (map Fscan_tokens inputs))"
    by simp
  have tok: "\<And>t. t \<in> set (concat (map Fscan_tokens inputs)) \<Longrightarrow>
      t \<noteq> [] \<and> (\<forall>ch\<in>set t. \<not> isSpace ch)"
    using Fscan_tokens_good by auto
  have a1: "\<forall>t\<in>set q. t = [] \<or> (t \<noteq> [] \<and> (\<forall>ch\<in>set t. \<not> isSpace ch))"
    using t tok by blast
  have a2: "\<forall>t\<in>set (go_lookup [] (chain c) (String q)). t \<noteq> [] \<and> (\<forall>ch\<in>set t. \<not> isSpace ch)"
    using ws tok by blast
  from line_fields_are_fields [OF a1 a2]
  show "line_fields c q = prefix_fields q @
           concat (map (\<lambda>s. [s, Itoa (go_lookup 0 (go_lookup [] (pairmap c) (String q)) s)])
                    (go_lookup [] (chain c) (String q)))"
    and "\<forall>f\<in>set (line_fields c q). f \<noteq> [] \<and> (\<forall>ch\<in>set f. \<not> isSpace ch)"
    by blast+
qed

text \<open>
  Claim C3. Every line after the first that \<open>WriteModel\<close> writes for a chain filled by
  \<open>Build\<close> calls is the line of a prefix \<open>q\<close> of \<open>k\<close> words: its fields, separated by
  single spaces, are the words of the prefix (the empty word in its quoted form), then
  each suffix recorded for the prefix, once, followed by its count in the finished table,
  which is the number of times the prefix is followed by that suffix in all the texts.
  So the fields after the first \<open>k\<close> come in pairs and their number is even.
\<close>

theorem WriteModel_line_fields:
  assumes "Build_all inputs (NewChain k) = Inr c"
    and "WriteModel c = Inr (c', out)" and "l \<in> set (tl out)"
  shows "\<exists>q. length q = nat (sint k)
       \<and> Fields l = prefix_fields q @
           concat (map (\<lambda>s. [s, Itoa (go_lookup 0 (go_lookup [] (pairmap c) (String q)) s)])
                    (go_lookup [] (chain c) (String q)))
       \<and> l = Join (Fields l) '' ''
       \<and> distinct (go_lookup [] (chain c) (String q))
       \<and> set (go_lookup [] (chain c) (String q)) = {s. 0 < times_followed c (String q) s}
       \<and> (\<forall>s. go_lookup 0 (go_lookup [] (pairmap c) (String q)) s =
               of_nat (times_followed c (String q) s))
       \<and> even (length (Fields l) - nat (sint k))"
proof -
  have k: "0 < sint k"
  proof (rule ccontr)
    assume "\<not> 0 < sint k"
    then have "sint k \<le> 0" by simp
    from WriteModel_built_small(1) [OF this assms(1)] assms(2,3) show False by simp
  qed
  note w = WriteModel_built [OF k assms(1)]
  from w(1) assms(2,3) obtain q where q: "q \<in> set (first_new [] (map fst (encounters c)))"
    and l: "l = Join (line_fields c q) '' ''"
    by auto
  from q first_new_subset have e: "q \<in> fst ` set (encounters c)" by fastforce
  note b = built_line [OF k assms(1) e]
  let ?ws = "go_lookup [] (chain c) (String q)"
  let ?pair = "\<lambda>s. [s, Itoa (go_lookup 0 (go_lookup [] (pairmap c) (String q)) s)]"
  have f: "Fields l = line_fields c q" unfolding l using b(5) by (rule Fields_Join)
  have len: "length (prefix_fields q @ concat (map ?pair ?ws)) = nat (sint k) + 2 * length ?ws"
    using b(1) by (simp add: prefix_fields_def length_concat comp_def sum_list_triv)
  have ev: "even (length (Fields l) - nat (sint k))"
    unfolding f b(4) len by simp
  from b(1) f b(4) l built_choices(1,2,4) [OF w(2)] ev show ?thesis
    by (intro exI [of _ q]) simp
qed

theorem WriteModel_line_fields_witness:
  "Build_all [''a b a b''] (NewChain 1) =
     Inr \<lparr>chain = [([], [''a'']), (''a'', [''b'']), (''b'', [''a''])], prefixLen = 1,
          text' = [[''a'', ''b'', ''a'', ''b'']],
          pairmap = [([], [(''a'', 1)]), (''a'', [(''b'', 2)]), (''b'', [(''a'', 1)])],
          prefixStorage = []\<rparr> \<and>
   WriteModel \<lparr>chain = [([], [''a'']), (''a'', [''b'']), (''b'', [''a''])], prefixLen = 1,
          text' = [[''a'', ''b'', ''a'', ''b'']],
          pairmap = [([], [(''a'', 1)]), (''a'', [(''b'', 2)]), (''b'', [(''a'', 1)])],
          prefixStorage = []\<rparr> =
     Inr (\<lparr>chain = [([], [''a'']), (''a'', [''b'']), (''b'', [''a''])], prefixLen = 1,
          text' = [[''a'', ''b'', ''a'', ''b'']],
          pairmap = [([], [(''a'', 1)]), (''a'', [(''b'', 2)]), (''b'', [(''a'', 1)])],
          prefixStorage = [[], ''a'', ''b'']\<rparr>,
          [''1'', [CHR 0x22, CHR 0x22, CHR '' '', CHR ''a'', CHR '' '', CHR ''1''],
           ''a b 2'', ''b a 1'']) \<and>
   ''a b 2'' \<in> set (tl [''1'', [CHR 0x22, CHR 0x22, CHR '' '', CHR ''a'', CHR '' '', CHR ''1''],
           ''a b 2'', ''b a 1'']) \<and>
   Fields ''a b 2'' = [''a'', ''b'', ''2''] \<and>
   even (length (Fields ''a b 2'') - nat (sint (1 :: int64)))"
proof -
  let ?C = "\<lparr>chain = [([], [''a'']), (''a'', [''b'']), (''b'', [''a''])], prefixLen = 1,
          text' = [[''a'', ''b'', ''a'', ''b'']],
          pairmap = [([], [(''a'', 1)]), (''a'', [(''b'', 2)]), (''b'', [(''a'', 1)])],
          prefixStorage = []\<rparr>"
  let ?out = "[''1'', [CHR 0x22, CHR 0x22, CHR '' '', CHR ''a'', CHR '' '', CHR ''1''],
           ''a b 2'', ''b a 1'']"
  have h2: "Build_all [''a b a b''] (NewChain 1) = Inr ?C"
    by (simp add: lib_eval prog_eval)
  have h3: "WriteModel ?C = Inr (?C\<lparr>prefixStorage := [[], ''a'', ''b'']\<rparr>, ?out)"
    by (simp add: lib_eval prog_eval)
  have h4: "''a b 2'' \<in> set (tl ?out)" by simp
  have f: "Fields ''a b 2'' = [''a'', ''b'', ''2'']" by (simp add: lib_eval)
  from WriteModel_line_fields [OF h2 h3 h4]
  have "even (length (Fields ''a b 2'') - nat (sint (1 :: int64)))" by blast
  with h2 h3 h4 f show ?thesis by simp
qed

subsection \<open>Reading back what WriteModel wrote\<close>

lemma table_of_update: "table_of (AList.update k v pm) = (table_of pm)(k \<mapsto> map_of v)"
  by (auto simp: table_of_def update_conv' fun_eq_iff)

lemma table_of_None: "(table_of pm key = None) = (map_of pm key = None)"
  by (simp add: table_of_def)

lemma unquote_prefix_fields: "Quote_empty \<notin> set q \<Longrightarrow> unquote_fields (prefix_fields q) = q"
  by (induction q) (auto simp: unquote_fields_def prefix_fields_def)

lemma unquote_plain: "Quote_empty \<notin> set xs \<Longrightarrow> unquote_fields xs = xs"
  by (induction xs) (auto simp: unquote_fields_def)

lemma Itoa_not_Quote: "Itoa i \<noteq> Quote_empty"
proof
  assume "Itoa i = Quote_empty"
  then have "CHR 0x22 \<in> set (Itoa i)" by (simp add: Quote_empty_def)
  with Itoa_chars [of i] show False by auto
qed

lemma read_suffixes_written:
  assumes "distinct ws" and "map_of (pairmap c) pre = Some inner"
  shows "\<exists>c'. read_suffixes pre flds (concat (map (\<lambda>s. [s, Itoa (f s)]) ws)) (c, pr) = (c', pr)
           \<and> prefixLen c' = prefixLen c \<and> prefixStorage c' = prefixStorage c
           \<and> table_of (pairmap c') =
               (table_of (pairmap c))(pre \<mapsto>
                  (\<lambda>s. if s \<in> set ws then Some (go_lookup 0 inner s + f s) else map_of inner s))"
  using assms
proof (induction ws arbitrary: c inner)
  case Nil
  have "table_of (pairmap c) pre = Some (map_of inner)"
    using Nil.prems(2) by (simp add: table_of_def)
  then have "(table_of (pairmap c))(pre \<mapsto> map_of inner) = table_of (pairmap c)"
    by (rule fun_upd_idem)
  then show ?case by simp
next
  case (Cons s ws)
  let ?v = "go_lookup 0 inner s + f s"
  let ?inner1 = "AList.update s ?v inner"
  let ?c1 = "c\<lparr>pairmap := AList.update pre ?inner1 (pairmap c)\<rparr>"
  have gi: "go_lookup [] (pairmap c) pre = inner"
    using Cons.prems(2) by (simp add: go_lookup_def)
  have d: "distinct ws" and n: "s \<notin> set ws" using Cons.prems(1) by auto
  have m1: "map_of (pairmap ?c1) pre = Some ?inner1" by (simp add: update_conv')
  from Cons.IH [OF d m1] obtain c' where
    r: "read_suffixes pre flds (concat (map (\<lambda>s. [s, Itoa (f s)]) ws)) (?c1, pr) = (c', pr)"
    and fr: "prefixLen c' = prefixLen ?c1" "prefixStorage c' = prefixStorage ?c1"
    and t: "table_of (pairmap c') =
               (table_of (pairmap ?c1))(pre \<mapsto>
                  (\<lambda>s'. if s' \<in> set ws then Some (go_lookup 0 ?inner1 s' + f s')
                        else map_of ?inner1 s'))"
    by blast
  have step: "read_suffixes pre flds (concat (map (\<lambda>s. [s, Itoa (f s)]) (s # ws))) (c, pr) =
      read_suffixes pre flds (concat (map (\<lambda>s. [s, Itoa (f s)]) ws)) (?c1, pr)"
    by (simp add: Atoi_Itoa gi)
  have g: "(\<lambda>s'. if s' \<in> set ws then Some (go_lookup 0 ?inner1 s' + f s') else map_of ?inner1 s') =
      (\<lambda>s'. if s' \<in> set (s # ws) then Some (go_lookup 0 inner s' + f s') else map_of inner s')"
    using n by (auto simp: fun_eq_iff go_lookup_update update_conv')
  have tbl: "table_of (pairmap c') =
      (table_of (pairmap c))(pre \<mapsto>
         (\<lambda>s'. if s' \<in> set (s # ws) then Some (go_lookup 0 inner s' + f s') else map_of inner s'))"
    unfolding t g by (simp add: table_of_update)
  have full: "read_suffixes pre flds (concat (map (\<lambda>s. [s, Itoa (f s)]) (s # ws))) (c, pr) = (c', pr)"
    using step r by (simp only:)
  have f1: "prefixLen c' = prefixLen c" and f2: "prefixStorage c' = prefixStorage c"
    using fr by simp_all
  show ?case using full f1 f2 tbl by (intro exI [of _ c'] conjI)
qed

lemma read_line_written:
  assumes "prefixLen r = k" and "0 < sint k" and "readable c k q"
    and "table_of (pairmap r) (String q) = None"
  shows "\<exists>r'. read_line (Join (line_fields c q) '' '') (r, pr) = Inr (r', pr)
           \<and> prefixLen r' = k \<and> prefixStorage r' = prefixStorage r @ [String q]
           \<and> table_of (pairmap r') = (table_of (pairmap r))(String q \<mapsto> line_table c (String q))"
proof -
  let ?ws = "go_lookup [] (chain c) (String q)"
  let ?f = "\<lambda>s. go_lookup 0 (go_lookup [] (pairmap c) (String q)) s"
  let ?sfx = "concat (map (\<lambda>s. [s, Itoa (?f s)]) ?ws)"
  from assms(3) have len: "length q = nat (sint k)" and nq: "Quote_empty \<notin> set q"
    and qf: "\<forall>t\<in>set q. \<forall>ch\<in>set t. \<not> isSpace ch"
    and wf: "\<forall>t\<in>set ?ws. t \<noteq> [] \<and> (\<forall>ch\<in>set t. \<not> isSpace ch)"
    and nw: "Quote_empty \<notin> set ?ws" and d: "distinct ?ws"
    by (simp_all add: readable_def)
  have a1: "\<forall>t\<in>set q. t = [] \<or> (t \<noteq> [] \<and> (\<forall>ch\<in>set t. \<not> isSpace ch))" using qf by blast
  note lf = line_fields_are_fields [OF a1 wf]
  have F: "Fields (Join (line_fields c q) '' '') = prefix_fields q @ ?sfx"
    using Fields_Join [OF lf(2)] lf(1) by simp
  have "Quote_empty \<notin> set ?sfx" using nw Itoa_not_Quote Itoa_not_Quote [symmetric] by auto
  then have U: "unquote_fields (prefix_fields q @ ?sfx) = q @ ?sfx"
    using unquote_prefix_fields [OF nq] unquote_plain [of ?sfx]
    by (simp add: unquote_fields_def)
  let ?r1 = "r\<lparr>prefixStorage := prefixStorage r @ [String q]\<rparr>"
  let ?r2 = "?r1\<lparr>pairmap := AList.update (String q) [] (pairmap ?r1)\<rparr>"
  have none: "map_of (pairmap r) (String q) = None" using assms(4) by (simp add: table_of_None)
  have pre: "Join (take (nat (sint k)) (q @ ?sfx)) '' '' = String q"
    and dr: "drop (nat (sint k)) (q @ ?sfx) = ?sfx"
    and ge: "\<not> int (length (q @ ?sfx)) < sint k"
    using len by (simp_all add: String_def)
  have rl: "read_line (Join (line_fields c q) '' '') (r, pr) =
      Inr (read_suffixes (String q) (q @ ?sfx) ?sfx (?r2, pr))"
    using assms(1,2) none unfolding read_line_def F U Let_def fst_conv snd_conv
    by (simp only: pre dr ge) simp
  have m2: "map_of (pairmap ?r2) (String q) = Some []" by (simp add: update_conv')
  from read_suffixes_written [OF d m2, of "q @ ?sfx" ?f pr] obtain r' where
    rs: "read_suffixes (String q) (q @ ?sfx) ?sfx (?r2, pr) = (r', pr)"
    and fr: "prefixLen r' = prefixLen ?r2" "prefixStorage r' = prefixStorage ?r2"
    and t: "table_of (pairmap r') =
               (table_of (pairmap ?r2))(String q \<mapsto>
                  (\<lambda>s. if s \<in> set ?ws then Some (go_lookup 0 [] s + ?f s) else map_of [] s))"
    by blast
  have lt: "(\<lambda>s. if s \<in> set ?ws then Some (go_lookup 0 [] s + ?f s) else map_of [] s) =
      line_table c (String q)"
    by (auto simp: fun_eq_iff line_table_def go_lookup_def)
  have "table_of (pairmap r') = (table_of (pairmap r))(String q \<mapsto> line_table c (String q))"
    unfolding t lt by (simp add: table_of_update)
  with rl rs fr assms(1) show ?thesis by simp
qed

lemma read_lines_written:
  assumes "prefixLen r = k" and "0 < sint k" and "\<forall>q\<in>set qs. readable c k q"
    and "distinct (map String qs)"
    and "\<forall>q\<in>set qs. table_of (pairmap r) (String q) = None"
  shows "\<exists>r'. read_lines (map (\<lambda>q. Join (line_fields c q) '' '') qs) (r, pr) = Inr (r', pr)
           \<and> prefixLen r' = k \<and> prefixStorage r' = prefixStorage r @ map String qs
           \<and> (\<forall>key. table_of (pairmap r') key =
                 (if key \<in> String ` set qs then Some (line_table c key)
                  else table_of (pairmap r) key))"
  using assms
proof (induction qs arbitrary: r)
  case Nil
  then show ?case by simp
next
  case (Cons q qs)
  have rq: "readable c k q" and nq: "table_of (pairmap r) (String q) = None"
    using Cons.prems(3,5) by auto
  from read_line_written [OF Cons.prems(1,2) rq nq, of pr] obtain r1 where
    l: "read_line (Join (line_fields c q) '' '') (r, pr) = Inr (r1, pr)"
    and k1: "prefixLen r1 = k" and s1: "prefixStorage r1 = prefixStorage r @ [String q]"
    and t1: "table_of (pairmap r1) = (table_of (pairmap r))(String q \<mapsto> line_table c (String q))"
    by blast
  have rs: "\<forall>q\<in>set qs. readable c k q" and d: "distinct (map String qs)"
    and nk: "String q \<notin> String ` set qs"
    using Cons.prems(3,4) by auto
  have n1: "\<forall>q'\<in>set qs. table_of (pairmap r1) (String q') = None"
  proof
    fix q' assume q': "q' \<in> set qs"
    have "String q' \<noteq> String q"
    proof
      assume "String q' = String q"
      then have "String q \<in> String ` set qs" using q' by (metis imageI)
      with nk show False by contradiction
    qed
    with Cons.prems(5) q' show "table_of (pairmap r1) (String q') = None" by (simp add: t1)
  qed
  from Cons.IH [OF k1 Cons.prems(2) rs d n1] obtain r' where
    ls: "read_lines (map (\<lambda>q. Join (line_fields c q) '' '') qs) (r1, pr) = Inr (r', pr)"
    and k': "prefixLen r' = k" and s': "prefixStorage r' = prefixStorage r1 @ map String qs"
    and t': "\<forall>key. table_of (pairmap r') key =
                 (if key \<in> String ` set qs then Some (line_table c key)
                  else table_of (pairmap r1) key)"
    by blast
  have "\<forall>key. table_of (pairmap r') key =
                 (if key \<in> String ` set (q # qs) then Some (line_table c key)
                  else table_of (pairmap r) key)"
    using t' by (auto simp: t1)
  with l ls k' s' s1 show ?case by simp
qed

lemma Join_chars: "set (Join ts sep) \<subseteq> set sep \<union> \<Union> (set ` set ts)"
  by (induction ts sep rule: Join.induct) auto

lemma written_line_chars:
  assumes "\<forall>f\<in>set flds. \<forall>ch\<in>set f. \<not> isSpace ch"
  shows "CHR 0x0A \<notin> set (Join flds '' '') \<and> CHR 0x0D \<notin> set (Join flds '' '')"
proof -
  have sp: "isSpace (CHR 0x0A)" "isSpace (CHR 0x0D)" by (simp_all add: isSpace_def)
  have "\<And>ch. ch \<in> set (Join flds '' '') \<Longrightarrow> ch = CHR '' '' \<or> \<not> isSpace ch"
    using Join_chars [of flds "'' ''"] assms by auto
  with sp show ?thesis by auto
qed

lemma built_readable:
  assumes "0 < sint k" and "Build_all inputs (NewChain k) = Inr b"
    and "Quote_empty \<notin> set (concat (map Fscan_tokens inputs))"
    and "q \<in> fst ` set (encounters b)"
  shows "readable b k q"
proof -
  note w = WriteModel_built [OF assms(1,2)]
  note l = built_line [OF assms(1,2,4)]
  have tok: "\<And>t. t \<in> set (concat (map Fscan_tokens inputs)) \<Longrightarrow>
      t \<noteq> [] \<and> (\<forall>ch\<in>set t. \<not> isSpace ch)"
    using Fscan_tokens_good by auto
  have ne: "Quote_empty \<noteq> []" by (simp add: Quote_empty_def)
  have 1: "Quote_empty \<notin> set q" using l(2) assms(3) ne by metis
  have 2: "\<forall>t\<in>set q. \<forall>ch\<in>set t. \<not> isSpace ch" using l(2) tok by fastforce
  have 3: "\<forall>t\<in>set (go_lookup [] (chain b) (String q)). t \<noteq> [] \<and> (\<forall>ch\<in>set t. \<not> isSpace ch)"
    using l(3) tok by blast
  have 4: "Quote_empty \<notin> set (go_lookup [] (chain b) (String q))" using l(3) assms(3) by blast
  from l(1) 1 2 3 4 built_choices(2) [OF w(2)] show ?thesis
    unfolding readable_def by blast
qed

lemma map_of_go_lookup:
  "map_of inner s = (if s \<in> fst ` set inner then Some (go_lookup 0 inner s) else None)"
  by (cases "map_of inner s") (auto simp: go_lookup_def map_of_eq_None_iff dest: map_of_SomeD intro: rev_image_eqI)

lemma built_table:
  assumes "recorded b (map (\<lambda>(q, s). (String q, s)) (encounters b))"
  shows "table_of (pairmap b) key =
           (if key \<in> String ` fst ` set (encounters b) then Some (line_table b key) else None)"
proof (cases "map_of (pairmap b) key")
  case None
  then have "key \<notin> fst ` set (pairmap b)" by (simp add: map_of_eq_None_iff)
  with None show ?thesis by (simp add: table_of_def recorded_keys [OF assms])
next
  case (Some inner)
  then have "key \<in> fst ` set (pairmap b)"
    by (metis map_of_eq_None_iff option.distinct(1))
  then have k: "key \<in> String ` fst ` set (encounters b)" by (simp only: recorded_keys [OF assms])
  have gi: "go_lookup [] (pairmap b) key = inner" using Some by (simp add: go_lookup_def)
  have "map_of inner = line_table b key"
    using built_choices(3) [OF assms, of key] map_of_go_lookup [of inner]
    by (auto simp: fun_eq_iff line_table_def gi)
  with Some k show ?thesis by (simp add: table_of_def)
qed

text \<open>
  Claim C1, as amended. For every order \<open>k\<close> of at least 1 and all inputs of which no token
  is the quoted empty string (two double quotes): if every line that \<open>WriteModel\<close> writes
  for the chain built from the inputs is shorter than 65536 bytes, then
  \<open>ReadChainFromFile\<close> on the bytes written returns a chain whose table has the keys,
  the suffixes and the counts of the table built, reports nothing, and has the order \<open>k\<close>
  and the \<open>prefixStorage\<close> that \<open>WriteModel\<close> left.
\<close>

theorem write_read_round_trip:
  assumes "0 < sint k"
    and "Quote_empty \<notin> set (concat (map Fscan_tokens inputs))"
    and "Build_all inputs (NewChain k) = Inr b"
    and "WriteModel b = Inr (c, out)"
    and "\<forall>l\<in>set out. length l < MaxScanTokenSize"
  shows "\<exists>c2. ReadChainFromFile (file_bytes out) = Inr (c2, [])
           \<and> table_of (pairmap c2) = table_of (pairmap b)
           \<and> prefixLen c2 = k \<and> prefixStorage c2 = prefixStorage c"
proof -
  let ?qs = "first_new [] (map fst (encounters b))"
  let ?line = "\<lambda>q. Join (line_fields b q) '' ''"
  note w = WriteModel_built [OF assms(1,3)]
  from w(1) assms(4) have out: "out = Itoa k # map ?line ?qs"
    and c: "c = b\<lparr>prefixStorage := map String ?qs\<rparr>"
    by simp_all
  have sub: "\<And>q. q \<in> set ?qs \<Longrightarrow> q \<in> fst ` set (encounters b)"
    using first_new_subset [of "[]" "map fst (encounters b)"] by auto
  have rd: "\<forall>q\<in>set ?qs. readable b k q"
    using built_readable [OF assms(1,3,2)] sub by blast
  have hd_ok: "CHR 0x0A \<notin> set (Itoa k) \<and> CHR 0x0D \<notin> set (Itoa k)"
    using Itoa_chars [of k] by auto
  have ln_ok: "\<forall>q\<in>set ?qs. CHR 0x0A \<notin> set (?line q) \<and> CHR 0x0D \<notin> set (?line q)"
  proof
    fix q assume "q \<in> set ?qs"
    from built_line(5) [OF assms(1,3) sub [OF this]]
    have "\<forall>f\<in>set (line_fields b q). \<forall>ch\<in>set f. \<not> isSpace ch" by blast
    then show "CHR 0x0A \<notin> set (?line q) \<and> CHR 0x0D \<notin> set (?line q)"
      by (rule written_line_chars)
  qed
  have "\<forall>l\<in>set out. CHR 0x0A \<notin> set l \<and> CHR 0x0D \<notin> set l \<and> length l < MaxScanTokenSize"
    using hd_ok ln_ok assms(5) unfolding out by auto
  then have sc: "Scanner_lines (file_bytes out) = Itoa k # map ?line ?qs"
    unfolding out [symmetric] by (rule Scanner_lines_file_bytes)
  have rc: "ReadChainFromFile (file_bytes out) = read_lines (map ?line ?qs) (NewChain k, [])"
    by (simp add: ReadChainFromFile_def sc Atoi_Itoa)
  have k0: "prefixLen (NewChain k) = k" by (simp add: NewChain_def)
  have d: "distinct (map String ?qs)" by (simp add: first_new_all_keys)
  have e: "\<forall>q\<in>set ?qs. table_of (pairmap (NewChain k)) (String q) = None"
    by (simp add: NewChain_def table_of_def)
  from read_lines_written [OF k0 assms(1) rd d e, of "[]"] obtain c2 where
    r: "read_lines (map ?line ?qs) (NewChain k, []) = Inr (c2, [])"
    and k2: "prefixLen c2 = k"
    and s2: "prefixStorage c2 = prefixStorage (NewChain k) @ map String ?qs"
    and t2: "\<forall>key. table_of (pairmap c2) key =
                 (if key \<in> String ` set ?qs then Some (line_table b key)
                  else table_of (pairmap (NewChain k)) key)"
    by blast
  have keys: "String ` set ?qs = String ` fst ` set (encounters b)"
    using arg_cong [OF first_new_all_keys [of "map fst (encounters b)"], of set]
    by (simp add: image_image)
  have "table_of (pairmap c2) = table_of (pairmap b)"
  proof
    fix key
    show "table_of (pairmap c2) key = table_of (pairmap b) key"
      using t2 built_table [OF w(2), of key]
      by (simp add: keys NewChain_def table_of_def)
  qed
  moreover have "prefixStorage c2 = prefixStorage c" using s2 c by (simp add: NewChain_def)
  ultimately show ?thesis using rc r k2 by simp
qed


theorem write_read_round_trip_witness:
  "0 < sint (1 :: int64) \<and>
   Quote_empty \<notin> set (concat (map Fscan_tokens [''a b a b''])) \<and>
   Build_all [''a b a b''] (NewChain 1) =
     Inr \<lparr>chain = [([], [''a'']), (''a'', [''b'']), (''b'', [''a''])], prefixLen = 1,
          text' = [[''a'', ''b'', ''a'', ''b'']],
          pairmap = [([], [(''a'', 1)]), (''a'', [(''b'', 2)]), (''b'', [(''a'', 1)])],
          prefixStorage = []\<rparr> \<and>
   WriteModel \<lparr>chain = [([], [''a'']), (''a'', [''b'']), (''b'', [''a''])], prefixLen = 1,
          text' = [[''a'', ''b'', ''a'', ''b'']],
          pairmap = [([], [(''a'', 1)]), (''a'', [(''b'', 2)]), (''b'', [(''a'', 1)])],
          prefixStorage = []\<rparr> =
     Inr (\<lparr>chain = [([], [''a'']), (''a'', [''b'']), (''b'', [''a''])], prefixLen = 1,
          text' = [[''a'', ''b'', ''a'', ''b'']],
          pairmap = [([], [(''a'', 1)]), (''a'', [(''b'', 2)]), (''b'', [(''a'', 1)])],
          prefixStorage = [[], ''a'', ''b'']\<rparr>,
          [''1'', [CHR 0x22, CHR 0x22, CHR '' '', CHR ''a'', CHR '' '', CHR ''1''],
           ''a b 2'', ''b a 1'']) \<and>
   list_all (\<lambda>l. length l < MaxScanTokenSize)
     [''1'', [CHR 0x22, CHR 0x22, CHR '' '', CHR ''a'', CHR '' '', CHR ''1''],
      ''a b 2'', ''b a 1''] \<and>
   (\<exists>c2. ReadChainFromFile (file_bytes
             [''1'', [CHR 0x22, CHR 0x22, CHR '' '', CHR ''a'', CHR '' '', CHR ''1''],
              ''a b 2'', ''b a 1'']) = Inr (c2, [])
      \<and> table_of (pairmap c2) =
          table_of [([], [(''a'', 1)]), (''a'', [(''b'', 2)]), (''b'', [(''a'', 1)])]
      \<and> prefixLen c2 = 1 \<and> prefixStorage c2 = [[], ''a'', ''b''])"
proof -
  let ?B = "\<lparr>chain = [([], [''a'']), (''a'', [''b'']), (''b'', [''a''])], prefixLen = 1,
          text' = [[''a'', ''b'', ''a'', ''b'']],
          pairmap = [([], [(''a'', 1)]), (''a'', [(''b'', 2)]), (''b'', [(''a'', 1)])],
          prefixStorage = []\<rparr>"
  let ?out = "[''1'', [CHR 0x22, CHR 0x22, CHR '' '', CHR ''a'', CHR '' '', CHR ''1''],
           ''a b 2'', ''b a 1'']"
  have h1: "0 < sint (1 :: int64)" by simp
  have h2: "Quote_empty \<notin> set (concat (map Fscan_tokens [''a b a b'']))"
    by (simp add: lib_eval prog_eval)
  have h3: "Build_all [''a b a b''] (NewChain 1) = Inr ?B"
    by (simp add: lib_eval prog_eval)
  have h4: "WriteModel ?B = Inr (?B\<lparr>prefixStorage := [[], ''a'', ''b'']\<rparr>, ?out)"
    by (simp add: lib_eval prog_eval)
  have h5: "\<forall>l\<in>set ?out. length l < MaxScanTokenSize" by (simp add: MaxScanTokenSize_def)
  have h5': "list_all (\<lambda>l. length l < MaxScanTokenSize) ?out" by (simp add: MaxScanTokenSize_def)
  from write_read_round_trip [OF h1 h2 h3 h4 h5] h1 h2 h3 h4 h5' show ?thesis by simp
qed

text \<open>
  Claim C1 as stated fails on a text with the token \<open>""\<close> (two double quotes).
  \<open>WriteModel\<close> writes the token as it is, which is also how it writes the empty string,
  and \<open>ReadChainFromFile\<close> takes it for the empty string: for the text \<open>"" a\<close> and the
  order 1 the table built has the key \<open>""\<close>, and the table read back has not (there the
  suffix \<open>a\<close> has moved to the key of the empty string).
\<close>

theorem round_trip_fails_on_quoted_empty_token:
  "Build_all [[CHR 0x22, CHR 0x22, CHR '' '', CHR ''a'']] (NewChain 1) =
     Inr \<lparr>chain = [([], [[CHR 0x22, CHR 0x22]]), ([CHR 0x22, CHR 0x22], [''a''])],
          prefixLen = 1, text' = [[[CHR 0x22, CHR 0x22], ''a'']],
          pairmap = [([], [([CHR 0x22, CHR 0x22], 1)]), ([CHR 0x22, CHR 0x22], [(''a'', 1)])],
          prefixStorage = []\<rparr> \<and>
   WriteModel \<lparr>chain = [([], [[CHR 0x22, CHR 0x22]]), ([CHR 0x22, CHR 0x22], [''a''])],
          prefixLen = 1, text' = [[[CHR 0x22, CHR 0x22], ''a'']],
          pairmap = [([], [([CHR 0x22, CHR 0x22], 1)]), ([CHR 0x22, CHR 0x22], [(''a'', 1)])],
          prefixStorage = []\<rparr> =
     Inr (\<lparr>chain = [([], [[CHR 0x22, CHR 0x22]]), ([CHR 0x22, CHR 0x22], [''a''])],
          prefixLen = 1, text' = [[[CHR 0x22, CHR 0x22], ''a'']],
          pairmap = [([], [([CHR 0x22, CHR 0x22], 1)]), ([CHR 0x22, CHR 0x22], [(''a'', 1)])],
          prefixStorage = [[], [CHR 0x22, CHR 0x22]]\<rparr>,
          [''1'',
           [CHR 0x22, CHR 0x22, CHR '' '', CHR 0x22, CHR 0x22, CHR '' '', CHR ''1''],
           [CHR 0x22, CHR 0x22, CHR '' '', CHR ''a'', CHR '' '', CHR ''1'']]) \<and>
   ReadChainFromFile (file_bytes [''1'',
           [CHR 0x22, CHR 0x22, CHR '' '', CHR 0x22, CHR 0x22, CHR '' '', CHR ''1''],
           [CHR 0x22, CHR 0x22, CHR '' '', CHR ''a'', CHR '' '', CHR ''1'']]) =
     Inr (\<lparr>chain = [], prefixLen = 1, text' = [],
            pairmap = [([], [([], 1), (''a'', 1)])], prefixStorage = [[], []]\<rparr>, []) \<and>
   table_of [([], [([CHR 0x22, CHR 0x22], 1)]), ([CHR 0x22, CHR 0x22], [(''a'', 1)])]
       [CHR 0x22, CHR 0x22] \<noteq> None \<and>
   table_of [([], [([], 1), (''a'', 1)])] [CHR 0x22, CHR 0x22] = None"
  by (simp add: lib_eval prog_eval table_of_def)

text \<open>The scanner gives up at a line of 65536 bytes or more: the lines after it are not
  read, and \<open>ReadChainFromFile\<close> returns the table of the lines before it.\<close>

lemma Scanner_lines_stop:
  assumes "\<forall>l\<in>set (ls @ long # rest). CHR 0x0A \<notin> set l"
    and "\<forall>l\<in>set ls. length l < MaxScanTokenSize" and "MaxScanTokenSize \<le> length long"
  shows "Scanner_lines (file_bytes (ls @ long # rest)) = map dropCR ls"
proof -
  have r: "raw_lines [] (file_bytes (ls @ long # rest)) = ls @ long # rest"
    using assms(1) by (rule raw_lines_file_bytes)
  have "takeWhile (\<lambda>l. length l < MaxScanTokenSize) (ls @ long # rest) = ls"
    using assms(2,3) by (simp add: takeWhile_append2)
  with r show ?thesis by (simp add: Scanner_lines_def)
qed

subsection \<open>Generate on a model read from a file\<close>

lemma read_lines_lines:
  "read_lines ls st = Inr st' \<Longrightarrow>
     \<forall>l\<in>set ls. 0 \<le> sint (prefixLen (fst st)) \<and>
       nat (sint (prefixLen (fst st))) \<le> length (unquote_fields (Fields l))"
proof (induction ls arbitrary: st)
  case Nil
  then show ?case by simp
next
  case (Cons l ls)
  then obtain st1 where l: "read_line l st = Inr st1" and ls: "read_lines ls st1 = Inr st'"
    by (auto split: sum.splits)
  from l have "0 \<le> sint (prefixLen (fst st)) \<and>
       nat (sint (prefixLen (fst st))) \<le> length (unquote_fields (Fields l))"
    by (auto simp: read_line_def Let_def split: if_splits)
  with Cons.IH [OF ls] read_line_frame(1) [OF l] show ?case by simp
qed

lemma Fields_no_space: "\<forall>t\<in>set (Fields s). CHR '' '' \<notin> set t"
proof -
  have "isSpace (CHR '' '')" by (simp add: isSpace_def)
  with fields_from_tokens [of "[]" s] show ?thesis unfolding Fields_def by auto
qed

lemma Split_Join:
  "ts \<noteq> [] \<Longrightarrow> \<forall>t\<in>set ts. CHR '' '' \<notin> set t \<Longrightarrow> Split (Join ts '' '') = ts"
proof (induction ts "'' ''" rule: Join.induct)
  case 1
  then show ?case by simp
next
  case (2 x)
  then have "CHR '' '' \<notin> set x" by simp
  then have "Split x = [x]" by (induction x) auto
  then show ?case by simp
next
  case (3 x y ys)
  then have x: "CHR '' '' \<notin> set x" and r: "Split (Join (y # ys) '' '') = y # ys" by auto
  from x have "Split (x @ CHR '' '' # rest) = x # Split rest" for rest
    by (induction x) auto
  with r show ?case by simp
qed

text \<open>On a model read from a file with at least one line after the first, \<open>Generate n\<close>
  returns the key of the line that the draw selects, and nothing else, whenever
  \<open>n\<close> is at most the order and \<open>n - order\<close> is not below the least 64-bit integer. With
  an order of at least 1 that key splits into as many tokens as the order says.\<close>

lemma Generate_loaded_start_only:
  assumes "ReadChainFromFile data = Inr (c, printed)" and "prefixStorage c \<noteq> []"
    and "sint n \<le> sint (prefixLen c)" and "- (2 ^ 63) \<le> sint n - sint (prefixLen c)"
  shows "main_generate w data n =
           Inr (prefixStorage c ! (draw w 0 mod length (prefixStorage c)))"
    and "0 < sint (prefixLen c) \<Longrightarrow> key \<in> set (prefixStorage c) \<Longrightarrow>
           length (Split key) = nat (sint (prefixLen c))"
proof -
  obtain order err where a: "Atoi (case Scanner_lines data of [] \<Rightarrow> [] | l # _ \<Rightarrow> l) = (order, err)"
    by (cases "Atoi (case Scanner_lines data of [] \<Rightarrow> [] | l # _ \<Rightarrow> l)") auto
  with assms(1) have r: "read_lines (tl (Scanner_lines data)) (NewChain order, []) = Inr (c, printed)"
    by (auto simp: ReadChainFromFile_def Let_def split: if_splits)
  from read_lines_frame [OF r] have k: "prefixLen c = order"
    and ps: "prefixStorage c =
       map (\<lambda>l. Join (take (nat (sint order)) (unquote_fields (Fields l))) '' '')
         (tl (Scanner_lines data))"
    by (simp_all add: NewChain_def)
  from ps assms(2) have ne: "tl (Scanner_lines data) \<noteq> []" by auto
  from read_lines_lines [OF r] have ln: "\<forall>l\<in>set (tl (Scanner_lines data)).
      0 \<le> sint order \<and> nat (sint order) \<le> length (unquote_fields (Fields l))"
    by (simp add: NewChain_def)
  with ne have nn: "0 \<le> sint (prefixLen c)" unfolding k by (cases "tl (Scanner_lines data)") auto
  have "sint (n - prefixLen c) = signed_take_bit (LENGTH(64) - 1) (sint n - sint (prefixLen c))"
    by (rule sint_word_diff)
  also have "\<dots> = sint n - sint (prefixLen c)"
    using assms(3,4) sint_lt [of n] nn by (intro signed_take_bit_int_eq_self) simp_all
  finally have "sint (n - prefixLen c) \<le> 0" using assms(3) by simp
  from Generate_start_only [OF assms(2) nn this] assms(1)
  show "main_generate w data n =
           Inr (prefixStorage c ! (draw w 0 mod length (prefixStorage c)))"
    by (simp add: main_generate_def)
  show "length (Split key) = nat (sint (prefixLen c))"
    if p: "0 < sint (prefixLen c)" and m: "key \<in> set (prefixStorage c)"
  proof -
    from m obtain l where l: "l \<in> set (tl (Scanner_lines data))"
      and key: "key = Join (take (nat (sint order)) (unquote_fields (Fields l))) '' ''"
      unfolding ps by auto
    let ?ts = "take (nat (sint order)) (unquote_fields (Fields l))"
    from ln l have len: "length ?ts = nat (sint order)" by simp
    with p k have "?ts \<noteq> []" by auto
    moreover have "\<forall>t\<in>set ?ts. CHR '' '' \<notin> set t"
    proof
      fix t assume "t \<in> set ?ts"
      then have "t \<in> set (unquote_fields (Fields l))" by (rule in_set_takeD)
      then show "CHR '' '' \<notin> set t" using Fields_no_space [of l]
        by (auto simp: unquote_fields_def split: if_splits)
    qed
    ultimately have "Split key = ?ts" unfolding key by (rule Split_Join)
    with len k show ?thesis by simp
  qed
qed

text \<open>What \<open>Generate\<close> returns, where it returns: an entry of \<open>prefixStorage\<close> and after it
  at most \<open>n - c.prefixLen\<close> suffixes (none if that is negative).\<close>

lemma Generate_loop_length:
  "Generate_loop w c bound i t p words = Inr ws \<Longrightarrow>
     \<exists>more. ws = words @ more \<and> int (length more) \<le> max 0 (bound - i)"
proof (induction w c bound i t p words rule: Generate_loop.induct)
  case (1 w c bound i t p words)
  let ?choices = "go_lookup [] (pairmap c) (String p)"
  let ?keys = "candidates (visit w t ?choices)"
  show ?case
  proof (cases "i < bound \<and> length ?choices \<noteq> 0")
    case False
    with "1.prems" have "ws = words"
      by (auto simp: Generate_loop.simps [of w c bound i t p words] Let_def split: if_splits)
    then show ?thesis by simp
  next
    case True
    with "1.prems" obtain r suffix p' where
      a: "Intn w t (int (length ?keys)) = Inr r" and b: "index ?keys r = Inr suffix"
      and c: "Shift p suffix = Inr p'"
      and d: "Generate_loop w c bound (i + 1) (t + 1) p' (words @ [suffix]) = Inr ws"
      by (auto simp: Generate_loop.simps [of w c bound i t p words] Let_def split: sum.splits)
    from True have i: "i < bound" and l: "length ?choices \<noteq> 0" by simp_all
    from "1.IH" [OF i refl l refl a b c d] obtain more where
      "ws = (words @ [suffix]) @ more" "int (length more) \<le> max 0 (bound - (i + 1))"
      by blast
    with i show ?thesis by (intro exI [of _ "suffix # more"]) auto
  qed
qed

lemma Generate_length:
  assumes "Generate w c n = Inr txt"
  shows "\<exists>key more. key \<in> set (prefixStorage c) \<and> txt = Join (key # more) '' '' \<and>
           int (length more) \<le> max 0 (sint (n - prefixLen c))"
proof -
  from assms obtain r p0 key ws where
    a: "Intn w 0 (int (length (prefixStorage c))) = Inr r"
    and b: "index (prefixStorage c) r = Inr key"
    and l: "Generate_loop w c (sint (n - prefixLen c)) 0 1 (Split key) [String (Split key)] = Inr ws"
    and t: "txt = Join ws '' ''"
    by (auto simp: Generate_def Let_def split: sum.splits)
  from b have k: "key \<in> set (prefixStorage c)" by (auto simp: index_def split: if_splits)
  from Generate_loop_length [OF l] obtain more where
    "ws = [String (Split key)] @ more" "int (length more) \<le> max 0 (sint (n - prefixLen c) - 0)"
    by blast
  with t k show ?thesis by (auto simp: String_def Join_Split)
qed

end
